theory Spec2Isabelle
  imports Main "HOL-Library.Sublist"
begin

section \<open>Text, lines and character classes\<close>

text \<open>
  The script \<^verbatim>\<open>update_tokens.py\<close> works on Python \<^verbatim>\<open>str\<close> values. A text is modelled
  as a \<^typ>\<open>string\<close>, one \<^typ>\<open>char\<close> per code point, so the model covers the code
  points 0 to 255. The character classes are those of Python on that range:
  \<^verbatim>\<open>str.strip()\<close> and the regular expression class \<^verbatim>\<open>\s\<close> use the same whitespace
  test, and \<^verbatim>\<open>\w\<close> (which decides \<^verbatim>\<open>\b\<close>) is "alphanumeric or underscore".
\<close>

definition is_space :: "char \<Rightarrow> bool" where
  "is_space c = (let n = (of_char c :: nat) in
     (9 \<le> n \<and> n \<le> 13) \<or> (28 \<le> n \<and> n \<le> 32) \<or> n = 133 \<or> n = 160)"

definition is_word :: "char \<Rightarrow> bool" where
  "is_word c = (let n = (of_char c :: nat) in
     (48 \<le> n \<and> n \<le> 57) \<or> (65 \<le> n \<and> n \<le> 90) \<or> n = 95 \<or> (97 \<le> n \<and> n \<le> 122)
     \<or> n = 170 \<or> n = 178 \<or> n = 179 \<or> n = 181 \<or> n = 185 \<or> n = 186
     \<or> (188 \<le> n \<and> n \<le> 190) \<or> (192 \<le> n \<and> n \<le> 214) \<or> (216 \<le> n \<and> n \<le> 246)
     \<or> 248 \<le> n)"

text \<open>The class \<^verbatim>\<open>[A-Z_]\<close> and the class \<^verbatim>\<open>[^"]\<close> of the literal patterns.\<close>

definition is_upper_us :: "char \<Rightarrow> bool" where
  "is_upper_us c = (let n = (of_char c :: nat) in (65 \<le> n \<and> n \<le> 90) \<or> n = 95)"

definition not_quote :: "char \<Rightarrow> bool" where
  "not_quote c = (c \<noteq> CHR 0x22)"

text \<open>\<^verbatim>\<open>content.split('\n')\<close>: never empty, the empty text gives one empty line.\<close>

fun split_lines :: "string \<Rightarrow> string list" where
  "split_lines [] = [[]]"
| "split_lines (c # cs) =
     (if c = CHR 0x0A then [] # split_lines cs
      else (case split_lines cs of
              [] \<Rightarrow> [[c]]
            | l # ls \<Rightarrow> (c # l) # ls))"

text \<open>\<^verbatim>\<open>'\n'.join(lines)\<close>.\<close>

fun join_lines :: "string list \<Rightarrow> string" where
  "join_lines [] = []"
| "join_lines [l] = l"
| "join_lines (l # ls) = l @ CHR 0x0A # join_lines ls"

text \<open>\<^verbatim>\<open>line.strip()\<close>: whitespace removed at both ends.\<close>

definition strip :: "string \<Rightarrow> string" where
  "strip s = rev (dropWhile is_space (rev (dropWhile is_space s)))"

text \<open>\<^verbatim>\<open>sub in s\<close> on strings: \<open>sub\<close> occurs in \<open>s\<close> as a contiguous piece.\<close>

fun contains :: "string \<Rightarrow> string \<Rightarrow> bool" where
  "contains sub [] = (sub = [])"
| "contains sub (c # cs) = (prefix sub (c # cs) \<or> contains sub cs)"

text \<open>\<^verbatim>\<open>lines.insert(i, x)\<close>; an index past the end appends, as in Python.\<close>

definition insert_at :: "nat \<Rightarrow> 'a \<Rightarrow> 'a list \<Rightarrow> 'a list" where
  "insert_at i x xs = take i xs @ x # drop i xs"

text \<open>The index of the first element that satisfies a test, the loop
  \<^verbatim>\<open>for i, x in enumerate(xs): if test(x): ...; break\<close>.\<close>

fun first_index :: "('a \<Rightarrow> bool) \<Rightarrow> 'a list \<Rightarrow> nat option" where
  "first_index P [] = None"
| "first_index P (x # xs) = (if P x then Some 0 else map_option Suc (first_index P xs))"


section \<open>The import manager\<close>

text \<open>The exceptions the script can meet: the \<^verbatim>\<open>ValueError\<close> of \<^verbatim>\<open>add_symbol_import\<close>
  with its message, and the failures of \<^verbatim>\<open>open\<close>.\<close>

datatype error = ValueError string | FileNotFound string | PermissionDenied string

text \<open>The two marker strings of \<^verbatim>\<open>has_symbol_import\<close> and the lines that
  \<^verbatim>\<open>add_symbol_import\<close> inserts.\<close>

definition symbol_path :: string where
  "symbol_path = [CHR 0x22] @ ''govel/packages/support/src/symbol'' @ [CHR 0x22]"

definition import_stmt :: string where
  "import_stmt = ''import '' @ symbol_path"

definition import_entry :: string where
  "import_entry = CHR 0x09 # symbol_path"

definition has_symbol_import :: "string \<Rightarrow> bool" where
  "has_symbol_import content = (contains import_stmt content \<or> contains symbol_path content)"

text \<open>
  The state of the scan of \<^verbatim>\<open>add_symbol_import\<close> after the package line:
  \<^verbatim>\<open>has_imports\<close>, \<^verbatim>\<open>import_start\<close>, \<^verbatim>\<open>import_end\<close> (\<open>None\<close> is the source's \<open>-1\<close>)
  and the list of lines, which the single-import branch rewrites.
\<close>

record scan =
  has_imports :: bool
  import_start :: "nat option"
  import_end :: "nat option"
  scan_lines :: "string list"

text \<open>The inner loop \<^verbatim>\<open>for j in range(i + 1, len(lines))\<close>: the first line after \<open>i\<close>
  that strips to a closing parenthesis.\<close>

definition find_close :: "string list \<Rightarrow> nat \<Rightarrow> nat option" where
  "find_close lines i =
     map_option (\<lambda>k. i + 1 + k) (first_index (\<lambda>l. strip l = '')'') (drop (i + 1) lines))"

text \<open>
  The loop \<^verbatim>\<open>for i in range(package_line + 1, len(lines))\<close>. A blank line is skipped;
  a line that starts with \<^verbatim>\<open>import\<close> but with neither \<^verbatim>\<open>import (\<close> nor \<^verbatim>\<open>import \<close>
  sets \<^verbatim>\<open>has_imports\<close> and the loop goes on, since no \<^verbatim>\<open>break\<close> is reached; any other
  line ends the loop.
\<close>

function scan_imports :: "string list \<Rightarrow> nat \<Rightarrow> bool \<Rightarrow> scan" where
  "scan_imports lines i has =
     (if length lines \<le> i then
        \<lparr>has_imports = has, import_start = None, import_end = None, scan_lines = lines\<rparr>
      else
        let line = strip (lines ! i) in
        if line = [] then scan_imports lines (i + 1) has
        else if prefix ''import'' line then
          (if prefix ''import ('' line then
             \<lparr>has_imports = True, import_start = Some i, import_end = find_close lines i,
              scan_lines = lines\<rparr>
           else if prefix ''import '' line then
             \<lparr>has_imports = True, import_start = Some i, import_end = Some (i + 2),
              scan_lines = insert_at (i + 2) '')''
                             (insert_at (i + 1) (CHR 0x09 # drop 7 line) (lines[i := ''import ('']))\<rparr>
           else scan_imports lines (i + 1) True)
        else
          \<lparr>has_imports = has, import_start = None, import_end = None, scan_lines = lines\<rparr>)"
  by pat_completeness auto
termination
  by (relation "measure (\<lambda>(lines, i, has). length lines - i)") auto

declare scan_imports.simps [simp del]

definition add_symbol_import :: "string \<Rightarrow> error + string" where
  "add_symbol_import content =
     (let lines = split_lines content in
      case first_index (prefix ''package '') lines of
        None \<Rightarrow> Inl (ValueError ''No package declaration found'')
      | Some package_line \<Rightarrow>
          let sc = scan_imports lines (package_line + 1) False in
          if \<not> has_imports sc then
            Inr (join_lines
                  (insert_at (package_line + 3) []
                    (insert_at (package_line + 2) import_stmt
                      (insert_at (package_line + 1) [] (scan_lines sc)))))
          else
            (case (import_start sc, import_end sc) of
               (Some st, Some en) \<Rightarrow> Inr (join_lines (insert_at en import_entry (scan_lines sc)))
             | _ \<Rightarrow> Inr (join_lines (scan_lines sc))))"


section \<open>Regular expressions as the script uses them\<close>

text \<open>
  The patterns of the script are sequences of literals and greedy repetitions of a
  character class. \<^verbatim>\<open>re\<close> matches such a sequence by backtracking: a greedy repetition
  first takes as many characters as it can and gives them back one at a time when the
  rest of the pattern fails. \<open>atom_matches\<close> lists the ways one item can match at the
  head of a text, in the order the matcher tries them, each with the matched piece and
  the text left; \<open>run\<close> does so for a whole pattern, and the match returned by \<^verbatim>\<open>re\<close> is the
  first of the list.
\<close>

datatype atom = Lit string | Star "char \<Rightarrow> bool" | Plus "char \<Rightarrow> bool"

fun atom_matches :: "atom \<Rightarrow> string \<Rightarrow> (string \<times> string) list" where
  "atom_matches (Lit l) s = (if prefix l s then [(l, drop (length l) s)] else [])"
| "atom_matches (Star P) s =
     map (\<lambda>k. (take k s, drop k s)) (rev [0 ..< Suc (length (takeWhile P s))])"
| "atom_matches (Plus P) s =
     map (\<lambda>k. (take k s, drop k s)) (rev [1 ..< Suc (length (takeWhile P s))])"

fun run :: "atom list \<Rightarrow> string \<Rightarrow> (string list \<times> string) list" where
  "run [] s = [([], s)]"
| "run (a # as) s =
     concat (map (\<lambda>(m, r). map (\<lambda>(ms, r'). (m # ms, r')) (run as r)) (atom_matches a s))"

definition re_match :: "atom list \<Rightarrow> string \<Rightarrow> (string list \<times> string) option" where
  "re_match pat s = (case run pat s of [] \<Rightarrow> None | x # _ \<Rightarrow> Some x)"

text \<open>\<^verbatim>\<open>\b\<close> between the character before the position (none at the start of the text)
  and the character at it (none at the end): exactly one of the two is a word character.\<close>

definition word_boundary :: "char option \<Rightarrow> string \<Rightarrow> bool" where
  "word_boundary prev s =
     ((case prev of None \<Rightarrow> False | Some c \<Rightarrow> is_word c)
        \<noteq> (case s of [] \<Rightarrow> False | c # _ \<Rightarrow> is_word c))"

definition no_assertion :: "char option \<Rightarrow> string \<Rightarrow> bool" where
  "no_assertion prev s = True"

text \<open>
  \<^verbatim>\<open>re.sub(pattern, repl, text)\<close>: the text is scanned from the left; where the pattern
  (with its leading assertion) matches, the replacement computed from the matched pieces
  is written and the scan goes on behind the match, elsewhere the character is copied.
  \<open>prev\<close> is the character before the position. The patterns of the script match no
  empty text; for an empty match the replacement is written and the scan moves one
  character on.
\<close>

function re_sub :: "(char option \<Rightarrow> string \<Rightarrow> bool) \<Rightarrow> atom list \<Rightarrow> (string list \<Rightarrow> string)
    \<Rightarrow> char option \<Rightarrow> string \<Rightarrow> string" where
  "re_sub asrt pat repl prev [] =
     (case (if asrt prev [] then re_match pat [] else None) of
        None \<Rightarrow> []
      | Some (ms, r) \<Rightarrow> repl ms)"
| "re_sub asrt pat repl prev (c # cs) =
     (case (if asrt prev (c # cs) then re_match pat (c # cs) else None) of
        None \<Rightarrow> c # re_sub asrt pat repl (Some c) cs
      | Some (ms, r) \<Rightarrow>
          if length r < length (c # cs) then
            repl ms @ re_sub asrt pat repl
                        (Some (last (take (length (c # cs) - length r) (c # cs)))) r
          else repl ms @ c # re_sub asrt pat repl (Some c) cs)"
  by pat_completeness auto
termination
  by (relation "measure (\<lambda>(asrt, pat, repl, prev, s). length s)") auto

declare re_sub.simps [simp del]

text \<open>\<^verbatim>\<open>re.search(pattern, text)\<close> as a truth value: the pattern matches at some position.\<close>

fun re_search :: "atom list \<Rightarrow> string \<Rightarrow> bool" where
  "re_search pat [] = (re_match pat [] \<noteq> None)"
| "re_search pat (c # cs) = (re_match pat (c # cs) \<noteq> None \<or> re_search pat cs)"


section \<open>The declaration converter\<close>

text \<open>\<^verbatim>\<open>re.sub(r'\bconst\s*\(', 'var (', content)\<close>.\<close>

definition const_open_re :: "atom list" where
  "const_open_re = [Lit ''const'', Star is_space, Lit ''('']"

definition convert_const_to_var :: "string \<Rightarrow> string" where
  "convert_const_to_var content =
     re_sub word_boundary const_open_re (\<lambda>ms. ''var ('') None content"


section \<open>The literal rewriter\<close>

text \<open>
  The pattern of the test, \<^verbatim>\<open>[A-Z_]+\s*=\s*"govel\.[^"]+"\<close>, and the pattern of the
  substitution, which puts \<^verbatim>\<open>(\s*)\<close> in front. The opening quote and \<^verbatim>\<open>govel\.\<close> are two
  literals, so that group 3 is the pieces 6 and 7 of a match; group 1 is piece 0 and
  group 2 is piece 1.
\<close>

definition literal_re :: "atom list" where
  "literal_re = [Plus is_upper_us, Star is_space, Lit ''='', Star is_space,
                 Lit [CHR 0x22], Lit ''govel.'', Plus not_quote, Lit [CHR 0x22]]"

definition literal_sub_re :: "atom list" where
  "literal_sub_re = Star is_space # literal_re"

fun replace_func :: "string list \<Rightarrow> string" where
  "replace_func (indent # token_name # _ # _ # _ # _ # g # v # _) =
     indent @ token_name @ '' = symbol.For('' @ [CHR 0x22] @ (g @ v) @ [CHR 0x22] @ '')''"
| "replace_func _ = []"

definition rewrite_line :: "string \<Rightarrow> string" where
  "rewrite_line line =
     (if \<not> contains ''symbol.For('' line \<and> re_search literal_re line
      then re_sub no_assertion literal_sub_re replace_func None line
      else line)"

definition convert_string_to_symbol :: "string \<Rightarrow> string" where
  "convert_string_to_symbol content = join_lines (map rewrite_line (split_lines content))"


section \<open>The file updater\<close>

text \<open>
  The three steps of \<^verbatim>\<open>update_tokens_file\<close> on the text read, in the order of the source;
  the \<^verbatim>\<open>ValueError\<close> of the first step ends them.
\<close>

definition transform :: "string \<Rightarrow> error + string" where
  "transform original_content =
     (case (if \<not> has_symbol_import original_content
            then add_symbol_import original_content
            else Inr original_content) of
        Inl e \<Rightarrow> Inl e
      | Inr content \<Rightarrow> Inr (convert_string_to_symbol (convert_const_to_var content)))"

text \<open>
  What the script prints, one constructor per \<^verbatim>\<open>print\<close> call of the source, and the
  world it runs in: the files by path, the paths that cannot be opened for writing, the
  console, and the paths written so far (a write is recorded even when it stores the
  text the file already had). The content of a file is the text that \<^verbatim>\<open>f.read()\<close>
  returns, and a write stores the text given to \<^verbatim>\<open>f.write\<close>; a path without content
  stands for every failure of \<^verbatim>\<open>open\<close> or \<^verbatim>\<open>read\<close>.
\<close>

datatype event =
    NoFilesFound
  | Found nat
  | Listed string
  | UpdatingFiles
  | Processing string
  | ErrorProcessing string error
  | Updated
  | NoChangesNeeded
  | Completed nat nat

record world =
  files :: "string \<Rightarrow> string option"
  write_protected :: "string \<Rightarrow> bool"
  console :: "event list"
  written :: "string list"

definition print :: "event \<Rightarrow> world \<Rightarrow> world" where
  "print e w = w\<lparr>console := console w @ [e]\<rparr>"

text \<open>
  \<^verbatim>\<open>update_tokens_file\<close>: every exception inside the \<^verbatim>\<open>try\<close> (a file that cannot be read,
  the \<^verbatim>\<open>ValueError\<close> of the import step, a file that cannot be written) is printed with
  the path and the function returns \<^verbatim>\<open>False\<close>.
\<close>

definition update_tokens_file :: "string \<Rightarrow> world \<Rightarrow> bool \<times> world" where
  "update_tokens_file file_path w =
     (case files w file_path of
        None \<Rightarrow> (False, print (ErrorProcessing file_path (FileNotFound file_path)) w)
      | Some original_content \<Rightarrow>
          (case transform original_content of
             Inl e \<Rightarrow> (False, print (ErrorProcessing file_path e) w)
           | Inr content \<Rightarrow>
               if content \<noteq> original_content then
                 (if write_protected w file_path
                  then (False, print (ErrorProcessing file_path (PermissionDenied file_path)) w)
                  else (True, w\<lparr>files := (files w)(file_path \<mapsto> content),
                                 written := written w @ [file_path]\<rparr>))
               else (False, w)))"

text \<open>The loop of \<^verbatim>\<open>main\<close> over the files found, with its counter \<^verbatim>\<open>updated_count\<close>.\<close>

fun update_all :: "string list \<Rightarrow> nat \<Rightarrow> world \<Rightarrow> nat \<times> world" where
  "update_all [] updated_count w = (updated_count, w)"
| "update_all (file_path # rest) updated_count w =
     (case update_tokens_file file_path (print (Processing file_path) w) of
        (True, w') \<Rightarrow> update_all rest (updated_count + 1) (print Updated w')
      | (False, w') \<Rightarrow> update_all rest updated_count (print NoChangesNeeded w'))"

text \<open>\<^verbatim>\<open>main\<close>, given the list that \<^verbatim>\<open>find_tokens_files\<close> returned.\<close>

definition main :: "string list \<Rightarrow> world \<Rightarrow> world" where
  "main tokens_files w =
     (if tokens_files = [] then print NoFilesFound w
      else
        let w1 = fold (\<lambda>file_path. print (Listed file_path)) tokens_files
                   (print (Found (length tokens_files)) w);
            w2 = print UpdatingFiles w1;
            (updated_count, w3) = update_all tokens_files 0 w2
        in print (Completed updated_count (length tokens_files)) w3)"



section \<open>Notions used to state the properties\<close>

text \<open>
  The first non-blank line after the package line \<open>p\<close>, as the scan of
  \<^verbatim>\<open>add_symbol_import\<close> meets it: \<open>first_nonblank\<close> computes its index, and
  \<open>first_nonblank_after lines p i\<close> says that \<open>i\<close> is that index.
\<close>

definition first_nonblank :: "string list \<Rightarrow> nat \<Rightarrow> nat option" where
  "first_nonblank lines p =
     map_option (\<lambda>k. p + 1 + k) (first_index (\<lambda>l. strip l \<noteq> []) (drop (p + 1) lines))"

definition first_nonblank_after :: "string list \<Rightarrow> nat \<Rightarrow> nat \<Rightarrow> bool" where
  "first_nonblank_after lines p i \<longleftrightarrow>
     p < i \<and> i < length lines \<and> strip (lines ! i) \<noteq> []
       \<and> (\<forall>k. p < k \<and> k < i \<longrightarrow> strip (lines ! k) = [])"

text \<open>
  What a pattern item accepts, whatever the order of the attempts: a match of a pattern
  splits the text into pieces, one per item, each accepted by its item.
  \<open>blocked P rest\<close> says that \<open>rest\<close> matches no text that starts with a character of the
  class \<open>P\<close>; behind a greedy repetition of \<open>P\<close> such a rest makes backtracking useless.
\<close>

fun atom_ok :: "atom \<Rightarrow> string \<Rightarrow> bool" where
  "atom_ok (Lit l) m = (m = l)"
| "atom_ok (Star P) m = list_all P m"
| "atom_ok (Plus P) m = (m \<noteq> [] \<and> list_all P m)"

definition blocked :: "(char \<Rightarrow> bool) \<Rightarrow> atom list \<Rightarrow> bool" where
  "blocked P rest \<longleftrightarrow> (\<forall>c u. P c \<longrightarrow> run rest (c # u) = [])"

text \<open>
  A line has an assignment when somewhere in it a non-empty run of capitals and underscores
  is followed by optional whitespace, \<^verbatim>\<open>=\<close>, optional whitespace and a quoted literal
  that starts with \<^verbatim>\<open>govel.\<close> and has at least one more character.
\<close>

definition has_assignment :: "string \<Rightarrow> bool" where
  "has_assignment line \<longleftrightarrow>
     (\<exists>pre name ws1 ws2 v post.
        line = pre @ name @ ws1 @ ''='' @ ws2 @ [CHR 0x22] @ ''govel.'' @ v @ [CHR 0x22] @ post
      \<and> name \<noteq> [] \<and> list_all is_upper_us name \<and> list_all is_space ws1
      \<and> list_all is_space ws2 \<and> v \<noteq> [] \<and> list_all not_quote v)"

text \<open>What one replacement of the literal rewriter does to a text, as a relation: characters
  are copied, or an assignment is rewritten.\<close>

inductive rw :: "string \<Rightarrow> string \<Rightarrow> bool" where
  rw_nil: "rw [] []"
| rw_copy: "rw y z \<Longrightarrow> rw (c # y) (c # z)"
| rw_lit: "rw y z \<Longrightarrow> name \<noteq> [] \<Longrightarrow> list_all is_upper_us name \<Longrightarrow> list_all is_space ws1
    \<Longrightarrow> list_all is_space ws2 \<Longrightarrow> v \<noteq> [] \<Longrightarrow> list_all not_quote v
    \<Longrightarrow> rw (name @ ws1 @ ''='' @ ws2 @ [CHR 0x22] @ ''govel.'' @ v @ [CHR 0x22] @ y)
           (name @ '' = symbol.For('' @ [CHR 0x22] @ ''govel.'' @ v @ [CHR 0x22] @ '')'' @ z)"

text \<open>
  An opener of a grouped constant declaration, in the words of the specification: the
  keyword \<^verbatim>\<open>const\<close>, not preceded by a word character, followed by optional whitespace
  and an opening parenthesis. \<open>is_opener prev s\<close> says that \<open>s\<close> starts with one when \<open>prev\<close> is
  the character before \<open>s\<close>; \<open>count_openers\<close> counts the positions of a text where one
  starts.
\<close>

definition is_opener :: "char option \<Rightarrow> string \<Rightarrow> bool" where
  "is_opener prev s \<longleftrightarrow>
     (case prev of None \<Rightarrow> True | Some c \<Rightarrow> \<not> is_word c)
     \<and> prefix ''const'' s
     \<and> (case dropWhile is_space (drop 5 s) of [] \<Rightarrow> False | c # _ \<Rightarrow> c = CHR ''('')"

fun count_openers :: "char option \<Rightarrow> string \<Rightarrow> nat" where
  "count_openers prev [] = 0"
| "count_openers prev (c # cs) =
     (if is_opener prev (c # cs) then 1 else 0) + count_openers (Some c) cs"

text \<open>\<open>weave [u0, u1, ..., un] [m1, ..., mn]\<close> is the text \<open>u0 m1 u1 ... mn un\<close>: pieces that are
  kept, with a token between each two.\<close>

fun weave :: "string list \<Rightarrow> string list \<Rightarrow> string" where
  "weave [] ms = []"
| "weave (u # us) [] = u"
| "weave (u # us) (m # ms) = u @ m @ weave us ms"

text \<open>The substitution of the declaration converter, started in the middle of a text, and
  the character before the position reached when the text \<open>a\<close> has been passed.\<close>

definition sub_const :: "char option \<Rightarrow> string \<Rightarrow> string" where
  "sub_const prev s = re_sub word_boundary const_open_re (\<lambda>ms. ''var ('') prev s"

definition prev_after :: "char option \<Rightarrow> string \<Rightarrow> char option" where
  "prev_after p a = (if a = [] then p else Some (last a))"

text \<open>A character that cannot occur inside an opener: no opener reaches across it.\<close>

definition breaker :: "char \<Rightarrow> bool" where
  "breaker x \<longleftrightarrow> x \<notin> set ''const('' \<and> \<not> is_space x"

text \<open>
  The number of positions of a text at which \<open>q\<close> occurs. It is used for the marker
  \<open>symbol_path\<close>, the import path between its quotes, which cannot overlap itself.
\<close>

fun count_occ :: "string \<Rightarrow> string \<Rightarrow> nat" where
  "count_occ q [] = 0"
| "count_occ q (c # cs) = (if prefix q (c # cs) then 1 else 0) + count_occ q cs"

text \<open>A world with one writable file and an empty console, and two example texts: a
  tokens file as the script expects it, and the same file after the script has run.\<close>

definition one_file :: "string \<Rightarrow> string \<Rightarrow> world" where
  "one_file file_path content =
     \<lparr>files = [file_path \<mapsto> content], write_protected = (\<lambda>p. False), console = [],
      written = []\<rparr>"

definition sample_in :: string where
  "sample_in = ''package a\<newline>const (\<newline>A = \"govel.a\"\<newline>)''"

definition sample_out :: string where
  "sample_out = ''package a\<newline>\<newline>import \"govel/packages/support/src/symbol\"\<newline>\<newline>var (\<newline>A = symbol.For(\"govel.a\")\<newline>)''"

text \<open>A declaration block with an aligned assignment, an assignment whose name ends in a
  small letter, and an assignment that is already a factory call.\<close>

definition sample_block :: string where
  "sample_block = ''const (\<newline>  A_B  = \"govel.x\"\<newline>  userId = \"govel.y\"\<newline>  C = symbol.For(\"govel.c\")\<newline>)''"

text \<open>A file in which a literal is directly followed by the text of the import path and a
  quote, then the same file after one run and after two runs of the script.\<close>

definition glued_in :: string where
  "glued_in = ''package p\<newline>A = \"govel.x\"govel/packages/support/src/symbol\"''"

definition glued_once :: string where
  "glued_once = ''package p\<newline>A = symbol.For(\"govel.x\")govel/packages/support/src/symbol\"''"

definition glued_twice :: string where
  "glued_twice = ''package p\<newline>\<newline>import \"govel/packages/support/src/symbol\"\<newline>\<newline>A = symbol.For(\"govel.x\")govel/packages/support/src/symbol\"''"

text \<open>The example file after the import step alone.\<close>

definition sample_mid :: string where
  "sample_mid = ''package a\<newline>\<newline>import \"govel/packages/support/src/symbol\"\<newline>\<newline>const (\<newline>A = \"govel.a\"\<newline>)''"









section \<open>Lines, indices and the scan for imports\<close>


lemma split_lines_nonempty: "split_lines s \<noteq> []"
  by (induction s) (auto split: list.splits)

lemma join_split_lines: "join_lines (split_lines s) = s"
proof (induction s)
  case Nil
  show ?case by simp
next
  case (Cons c cs)
  obtain l ls where sp: "split_lines cs = l # ls"
    using split_lines_nonempty [of cs] by (cases "split_lines cs") auto
  show ?case
  proof (cases "c = CHR 0x0A")
    case True
    with Cons sp show ?thesis by simp
  next
    case False
    with Cons sp show ?thesis by (cases ls) auto
  qed
qed

lemma first_index_None: "first_index P xs = None \<longleftrightarrow> (\<forall>x \<in> set xs. \<not> P x)"
  by (induction xs) auto

lemma first_index_Some:
  "first_index P xs = Some i \<Longrightarrow> i < length xs \<and> P (xs ! i) \<and> (\<forall>j < i. \<not> P (xs ! j))"
proof (induction xs arbitrary: i)
  case Nil
  then show ?case by simp
next
  case (Cons x xs)
  show ?case
  proof (cases "P x")
    case True
    with Cons.prems show ?thesis by simp
  next
    case False
    with Cons.prems obtain k where k: "first_index P xs = Some k" "i = Suc k" by auto
    from Cons.IH [OF k(1)] False k(2) show ?thesis
      by (auto simp: nth_Cons split: nat.splits)
  qed
qed

lemma scan_skip_blank:
  "first_index (\<lambda>l. strip l \<noteq> []) (drop j lines) = Some k \<Longrightarrow>
     scan_imports lines j has = scan_imports lines (j + k) has"
proof (induction k arbitrary: j)
  case 0
  show ?case by simp
next
  case (Suc k)
  from first_index_Some [OF Suc.prems] have "Suc k < length (drop j lines)" by blast
  then have len: "j < length lines" by simp
  then have dr: "drop j lines = lines ! j # drop (Suc j) lines"
    by (simp add: Cons_nth_drop_Suc)
  with Suc.prems have blank: "strip (lines ! j) = []"
    and rest: "first_index (\<lambda>l. strip l \<noteq> []) (drop (Suc j) lines) = Some k"
    by (auto split: if_splits)
  from Suc.IH [OF rest] have "scan_imports lines (Suc j) has = scan_imports lines (Suc j + k) has" .
  moreover have "scan_imports lines j has = scan_imports lines (Suc j) has"
    using len blank by (subst scan_imports.simps) simp
  ultimately show ?case by simp
qed


lemma first_nonblank_Some:
  assumes "first_nonblank lines p = Some i"
  shows "p < i" and "i < length lines" and "strip (lines ! i) \<noteq> []"
    and "scan_imports lines (p + 1) has = scan_imports lines i has"
proof -
  from assms obtain k where k: "first_index (\<lambda>l. strip l \<noteq> []) (drop (p + 1) lines) = Some k"
    and i: "i = p + 1 + k"
    by (auto simp: first_nonblank_def)
  from first_index_Some [OF k] i show "p < i" "i < length lines" "strip (lines ! i) \<noteq> []"
    by (auto simp: add.commute)
  from scan_skip_blank [OF k] i show "scan_imports lines (p + 1) has = scan_imports lines i has"
    by simp
qed




lemma first_index_SomeI:
  "i < length xs \<Longrightarrow> P (xs ! i) \<Longrightarrow> (\<forall>j < i. \<not> P (xs ! j)) \<Longrightarrow> first_index P xs = Some i"
proof (induction xs arbitrary: i)
  case Nil
  then show ?case by simp
next
  case (Cons x xs)
  show ?case
  proof (cases i)
    case 0
    with Cons.prems show ?thesis by simp
  next
    case (Suc k)
    with Cons.prems have "\<not> P x" by auto
    moreover have "first_index P xs = Some k"
      using Cons.prems Suc by (intro Cons.IH) auto
    ultimately show ?thesis using Suc by simp
  qed
qed

lemma first_nonblank_after_iff:
  "first_nonblank_after lines p i \<longleftrightarrow> first_nonblank lines p = Some i"
proof
  assume a: "first_nonblank_after lines p i"
  then obtain k where k: "i = p + 1 + k" 
    by (metis first_nonblank_after_def less_iff_Suc_add Suc_eq_plus1 add_Suc_right add_Suc)
  from a have "first_index (\<lambda>l. strip l \<noteq> []) (drop (p + 1) lines) = Some k"
    unfolding first_nonblank_after_def k
    by (intro first_index_SomeI) (auto simp: add.commute)
  then show "first_nonblank lines p = Some i"
    by (simp add: first_nonblank_def k)
next
  assume a: "first_nonblank lines p = Some i"
  then obtain k where k: "first_index (\<lambda>l. strip l \<noteq> []) (drop (p + 1) lines) = Some k"
    and i: "i = p + 1 + k"
    by (auto simp: first_nonblank_def)
  from first_index_Some [OF k] have len: "k < length lines - (p + 1)"
    and nb: "strip (lines ! (p + 1 + k)) \<noteq> []"
    and bl: "\<forall>j<k. strip (lines ! (p + 1 + j)) = []"
    by (auto simp: add.commute)
  have "strip (lines ! m) = []" if "p < m" "m < i" for m
  proof -
    from that obtain j where "m = p + 1 + j" "j < k"
      using i by (metis Suc_eq_plus1 add_Suc less_iff_Suc_add nat_add_left_cancel_less add_Suc_right)
    with bl show ?thesis by simp
  qed
  with len nb i show "first_nonblank_after lines p i"
    by (auto simp: first_nonblank_after_def)
qed

lemma insert_at_three:
  assumes "n \<le> length xs"
  shows "insert_at (n + 2) c (insert_at (n + 1) b (insert_at n a xs))
           = take n xs @ [a, b, c] @ drop n xs"
proof -
  have 1: "insert_at n a xs = take n xs @ a # drop n xs" by (simp add: insert_at_def)
  have 2: "insert_at (n + 1) b (take n xs @ a # drop n xs) = take n xs @ a # b # drop n xs"
    using assms by (simp add: insert_at_def min_def)
  have 3: "insert_at (n + 2) c (take n xs @ a # b # drop n xs)
             = take n xs @ a # b # c # drop n xs"
    using assms by (simp add: insert_at_def min_def)
  show ?thesis by (simp only: 1 2 3) simp
qed


lemma prefix_import_weaken2: "prefix ''import ('' s \<Longrightarrow> prefix ''import'' s"
  by (auto simp: prefix_def)

lemma promote_lines:
  assumes "i < length xs"
  shows "insert_at (i + 2) e (insert_at (i + 2) c (insert_at (i + 1) b (xs[i := a])))
           = take i xs @ [a, b, e, c] @ drop (i + 1) xs"
proof -
  have 0: "xs[i := a] = take i xs @ a # drop (i + 1) xs"
    using assms by (simp add: upd_conv_take_nth_drop)
  have 1: "insert_at (i + 1) b (take i xs @ a # drop (i + 1) xs)
             = take i xs @ a # b # drop (i + 1) xs"
    using assms by (simp add: insert_at_def min_def)
  have 2: "insert_at (i + 2) c (take i xs @ a # b # drop (i + 1) xs)
             = take i xs @ a # b # c # drop (i + 1) xs"
    using assms by (simp add: insert_at_def min_def)
  have 3: "insert_at (i + 2) e (take i xs @ a # b # c # drop (i + 1) xs)
             = take i xs @ a # b # e # c # drop (i + 1) xs"
    using assms by (simp add: insert_at_def min_def)
  show ?thesis by (simp only: 0 1 2 3) simp
qed

lemma find_close_None:
  assumes "\<forall>j. i < j \<and> j < length lines \<longrightarrow> strip (lines ! j) \<noteq> '')''"
  shows "find_close lines i = None"
proof -
  have "\<forall>x \<in> set (drop (i + 1) lines). strip x \<noteq> '')''"
  proof
    fix x assume "x \<in> set (drop (i + 1) lines)"
    then obtain k where "k < length lines - (i + 1)" "x = lines ! (i + 1 + k)"
      by (auto simp: in_set_conv_nth)
    with assms show "strip x \<noteq> '')''" by auto
  qed
  then show ?thesis by (simp add: find_close_def first_index_None)
qed

lemma add_import_fails_iff:
  "(\<exists>e. add_symbol_import content = Inl e)
     \<longleftrightarrow> (\<forall>l \<in> set (split_lines content). \<not> prefix ''package '' l)"
proof (cases "first_index (prefix ''package '') (split_lines content)")
  case None
  then have "\<forall>l \<in> set (split_lines content). \<not> prefix ''package '' l"
    by (simp add: first_index_None)
  moreover have "\<exists>e. add_symbol_import content = Inl e"
    by (simp add: add_symbol_import_def None)
  ultimately show ?thesis by simp
next
  case (Some p)
  then have "\<not> (\<forall>l \<in> set (split_lines content). \<not> prefix ''package '' l)"
    using first_index_None [of "prefix ''package ''" "split_lines content"] by simp
  moreover have "\<exists>c. add_symbol_import content = Inr c"
    by (simp add: add_symbol_import_def Some Let_def split: option.splits)
  ultimately show ?thesis by auto
qed



section \<open>Matching: what the backtracking matcher returns\<close>


lemma take_takeWhile_all:
  "k \<le> length (takeWhile P s) \<Longrightarrow> list_all P (take k s)"
proof -
  assume k: "k \<le> length (takeWhile P s)"
  have "take k s = take k (takeWhile P s @ dropWhile P s)" by simp
  also have "\<dots> = take k (takeWhile P s)" using k by (simp del: takeWhile_dropWhile_id)
  finally have "set (take k s) \<subseteq> set (takeWhile P s)" by (simp add: set_take_subset)
  then show ?thesis by (auto simp: list_all_iff dest: set_takeWhileD)
qed

lemma in_splits:
  "(m, r) \<in> set (map (\<lambda>k. (take k s, drop k s)) (rev [lo ..< Suc n]))
     \<longleftrightarrow> (\<exists>k. lo \<le> k \<and> k \<le> n \<and> m = take k s \<and> r = drop k s)"
proof -
  have "set (rev [lo ..< Suc n]) = {k. lo \<le> k \<and> k \<le> n}"
    by (auto simp del: upt_Suc)
  then show ?thesis
    by (auto simp del: upt_Suc set_rev set_upt simp: image_iff)
qed

lemma atom_matches_sound:
  "(m, r) \<in> set (atom_matches a s) \<Longrightarrow> s = m @ r \<and> atom_ok a m"
proof (cases a)
  case (Lit l)
  assume "(m, r) \<in> set (atom_matches a s)"
  with Lit show ?thesis by (auto simp: prefix_def split: if_splits)
next
  case (Star P)
  assume "(m, r) \<in> set (atom_matches a s)"
  with Star have "(m, r) \<in> set (map (\<lambda>k. (take k s, drop k s))
                                  (rev [0 ..< Suc (length (takeWhile P s))]))"
    by (simp only: atom_matches.simps)
  then obtain k where "k \<le> length (takeWhile P s)" "m = take k s" "r = drop k s"
    unfolding in_splits by blast
  with Star show ?thesis by (simp add: take_takeWhile_all)
next
  case (Plus P)
  assume "(m, r) \<in> set (atom_matches a s)"
  with Plus have "(m, r) \<in> set (map (\<lambda>k. (take k s, drop k s))
                                  (rev [1 ..< Suc (length (takeWhile P s))]))"
    by (simp only: atom_matches.simps)
  then obtain k where k: "1 \<le> k" "k \<le> length (takeWhile P s)" "m = take k s" "r = drop k s"
    unfolding in_splits by blast
  then have "k \<le> length s" using length_takeWhile_le [of P s] by linarith
  with k Plus show ?thesis by (auto simp: take_takeWhile_all)
qed

lemma run_sound:
  "(ms, r) \<in> set (run pat s) \<Longrightarrow> s = concat ms @ r \<and> list_all2 atom_ok pat ms"
proof (induction pat arbitrary: s ms)
  case Nil
  then show ?case by simp
next
  case (Cons a pat)
  from Cons.prems obtain m r1 ms' where am: "(m, r1) \<in> set (atom_matches a s)"
    and rest: "(ms', r) \<in> set (run pat r1)" and ms: "ms = m # ms'"
    by auto
  from atom_matches_sound [OF am] Cons.IH [OF rest] ms show ?case by simp
qed

lemma re_match_sound:
  "re_match pat s = Some (ms, r) \<Longrightarrow> s = concat ms @ r \<and> list_all2 atom_ok pat ms"
proof -
  assume "re_match pat s = Some (ms, r)"
  then have "(ms, r) \<in> set (run pat s)"
    by (auto simp: re_match_def split: list.splits)
  then show ?thesis by (rule run_sound)
qed


lemma takeWhile_app_stop:
  assumes "list_all P a" and "t = [] \<or> \<not> P (hd t)"
  shows "takeWhile P (a @ t) = a"
proof -
  have "takeWhile P t = []" using assms(2) by (cases t) auto
  with assms(1) show ?thesis by (induction a) auto
qed

lemma concat_first_only:
  assumes "\<forall>k \<in> set ks. f k = []"
  shows "concat (map f (n # ks)) = f n"
  using assms by (induction ks) auto

lemma run_greedy:
  assumes a: "list_all P a" and t: "t = [] \<or> \<not> P (hd t)" and b: "blocked P rest"
    and lo: "lo \<le> length a"
  shows "concat (map (\<lambda>(m, r). map (\<lambda>(ms, r'). (m # ms, r')) (run rest r))
                  (map (\<lambda>k. (take k (a @ t), drop k (a @ t))) (rev [lo ..< Suc (length a)])))
         = map (\<lambda>(ms, r'). (a # ms, r')) (run rest t)"
proof -
  let ?f = "\<lambda>k. map (\<lambda>(ms, r'). (take k (a @ t) # ms, r')) (run rest (drop k (a @ t)))"
  have rv: "rev [lo ..< Suc (length a)] = length a # rev [lo ..< length a]"
    using lo by simp
  have dead: "\<forall>k \<in> set (rev [lo ..< length a]). ?f k = []"
  proof
    fix k assume "k \<in> set (rev [lo ..< length a])"
    then have k: "k < length a" by simp
    then have "drop k (a @ t) = a ! k # drop (Suc k) a @ t"
      by (simp add: Cons_nth_drop_Suc)
    moreover have "P (a ! k)" using a k by (simp add: list_all_length)
    ultimately have "run rest (drop k (a @ t)) = []"
      using b by (simp add: blocked_def)
    then show "?f k = []" by simp
  qed
  have "concat (map (\<lambda>(m, r). map (\<lambda>(ms, r'). (m # ms, r')) (run rest r))
                  (map (\<lambda>k. (take k (a @ t), drop k (a @ t))) (rev [lo ..< Suc (length a)])))
        = concat (map ?f (rev [lo ..< Suc (length a)]))"
    by (simp add: comp_def del: upt_Suc)
  also have "\<dots> = ?f (length a)"
    unfolding rv by (rule concat_first_only [OF dead])
  also have "\<dots> = map (\<lambda>(ms, r'). (a # ms, r')) (run rest t)" by simp
  finally show ?thesis .
qed

lemma run_star_app:
  assumes "list_all P a" and "t = [] \<or> \<not> P (hd t)" and "blocked P rest"
  shows "run (Star P # rest) (a @ t) = map (\<lambda>(ms, r'). (a # ms, r')) (run rest t)"
  using run_greedy [OF assms, of 0]
  by (simp add: takeWhile_app_stop [OF assms(1,2)] del: upt_Suc)

lemma run_plus_app:
  assumes "list_all P a" and "t = [] \<or> \<not> P (hd t)" and "blocked P rest" and "a \<noteq> []"
  shows "run (Plus P # rest) (a @ t) = map (\<lambda>(ms, r'). (a # ms, r')) (run rest t)"
proof -
  from assms(4) have "1 \<le> length a" by (cases a) auto
  from run_greedy [OF assms(1-3) this] show ?thesis
    by (simp add: takeWhile_app_stop [OF assms(1,2)] del: upt_Suc)
qed

lemma blocked_Lit: "l \<noteq> [] \<Longrightarrow> \<not> P (hd l) \<Longrightarrow> blocked P (Lit l # rest)"
  by (cases l) (auto simp: blocked_def)

lemma blocked_Plus: "(\<And>c. P c \<Longrightarrow> \<not> Q c) \<Longrightarrow> blocked P (Plus Q # rest)"
  by (auto simp: blocked_def)

lemma run_plus_none: "s = [] \<or> \<not> P (hd s) \<Longrightarrow> run (Plus P # rest) s = []"
  by (cases s) auto


lemma run_lit_app:
  "run (Lit l # rest) (l @ t) = map (\<lambda>(ms, r). (l # ms, r)) (run rest t)"
  by simp

lemma upper_not_space: "is_upper_us c \<Longrightarrow> \<not> is_space c"
  by (auto simp: is_upper_us_def is_space_def Let_def)

lemma space_not_upper: "is_space c \<Longrightarrow> \<not> is_upper_us c"
  by (auto simp: is_upper_us_def is_space_def Let_def)

lemma class_facts:
  "\<not> is_space (CHR ''='')" "\<not> is_upper_us (CHR ''='')" "\<not> is_space (CHR 0x22)"
  "\<not> is_space (CHR ''('')" "\<not> not_quote (CHR 0x22)"
  by (simp_all add: is_space_def is_upper_us_def not_quote_def)

lemma blocked_Star_Lit:
  assumes "\<And>c. P c \<Longrightarrow> \<not> Q c" and "l \<noteq> []" and "\<not> P (hd l)"
  shows "blocked P (Star Q # Lit l # rest)"
proof -
  have "run (Star Q # Lit l # rest) (c # u) = []" if "P c" for c u
  proof -
    from that assms(1) have "takeWhile Q (c # u) = []" by simp
    moreover from that assms(2,3) have "\<not> prefix l (c # u)"
      by (cases l) auto
    ultimately show ?thesis by simp
  qed
  then show ?thesis by (simp add: blocked_def)
qed

lemma hd_app_class:
  assumes "list_all P a" and "\<And>c. P c \<Longrightarrow> \<not> Q c" and "\<not> Q x"
  shows "a @ x # t = [] \<or> \<not> Q (hd (a @ x # t))"
  using assms by (cases a) auto

lemma run_lit_step:
  "run rest t = [(ms, r)] \<Longrightarrow> run (Lit l # rest) (l @ t) = [(l # ms, r)]"
  by simp

lemma run_star_step:
  assumes "run rest t = [(ms, r)]" and "list_all P a" and "t = [] \<or> \<not> P (hd t)"
    and "blocked P rest"
  shows "run (Star P # rest) (a @ t) = [(a # ms, r)]"
  unfolding run_star_app [OF assms(2-4)] assms(1) by simp

lemma run_plus_step:
  assumes "run rest t = [(ms, r)]" and "list_all P a" and "t = [] \<or> \<not> P (hd t)"
    and "blocked P rest" and "a \<noteq> []"
  shows "run (Plus P # rest) (a @ t) = [(a # ms, r)]"
  unfolding run_plus_app [OF assms(2-5)] assms(1) by simp

lemma literal_tail_run:
  assumes ws1: "list_all is_space ws1" and ws2: "list_all is_space ws2"
    and v: "v \<noteq> []" "list_all not_quote v"
  shows "run [Star is_space, Lit ''='', Star is_space, Lit [CHR 0x22], Lit ''govel.'',
              Plus not_quote, Lit [CHR 0x22]]
           (ws1 @ ''='' @ ws2 @ [CHR 0x22] @ ''govel.'' @ v @ [CHR 0x22] @ rest)
         = [([ws1, ''='', ws2, [CHR 0x22], ''govel.'', v, [CHR 0x22]], rest)]"
proof -
  let ?q = "[CHR 0x22]"
  have r0: "run [] rest = [([], rest)]" by simp
  have r1: "run [Lit ?q] (?q @ rest) = [([?q], rest)]"
    by (rule run_lit_step [OF r0])
  have r2: "run [Plus not_quote, Lit ?q] (v @ ?q @ rest) = [([v, ?q], rest)]"
    by (rule run_plus_step [OF r1 v(2) _ _ v(1)]) (simp_all add: class_facts blocked_Lit)
  have r3: "run [Lit ''govel.'', Plus not_quote, Lit ?q] (''govel.'' @ v @ ?q @ rest)
              = [([''govel.'', v, ?q], rest)]"
    by (rule run_lit_step [OF r2])
  have r4: "run [Lit ?q, Lit ''govel.'', Plus not_quote, Lit ?q]
              (?q @ ''govel.'' @ v @ ?q @ rest) = [([?q, ''govel.'', v, ?q], rest)]"
    by (rule run_lit_step [OF r3])
  have r5: "run [Star is_space, Lit ?q, Lit ''govel.'', Plus not_quote, Lit ?q]
              (ws2 @ ?q @ ''govel.'' @ v @ ?q @ rest)
              = [([ws2, ?q, ''govel.'', v, ?q], rest)]"
    by (rule run_star_step [OF r4 ws2]) (simp_all add: class_facts blocked_Lit)
  have r6: "run [Lit ''='', Star is_space, Lit ?q, Lit ''govel.'', Plus not_quote, Lit ?q]
              (''='' @ ws2 @ ?q @ ''govel.'' @ v @ ?q @ rest)
              = [([''='', ws2, ?q, ''govel.'', v, ?q], rest)]"
    by (rule run_lit_step [OF r5])
  show ?thesis
    by (rule run_star_step [OF r6 ws1]) (simp_all add: class_facts blocked_Lit)
qed

lemma literal_re_run:
  assumes name: "name \<noteq> []" "list_all is_upper_us name"
    and ws1: "list_all is_space ws1" and ws2: "list_all is_space ws2"
    and v: "v \<noteq> []" "list_all not_quote v"
  shows "run literal_re
           (name @ ws1 @ ''='' @ ws2 @ [CHR 0x22] @ ''govel.'' @ v @ [CHR 0x22] @ rest)
         = [([name, ws1, ''='', ws2, [CHR 0x22], ''govel.'', v, [CHR 0x22]], rest)]"
proof -
  let ?t = "ws1 @ ''='' @ ws2 @ [CHR 0x22] @ ''govel.'' @ v @ [CHR 0x22] @ rest"
  have stop: "?t = [] \<or> \<not> is_upper_us (hd ?t)"
    using hd_app_class [OF ws1, of is_upper_us "CHR ''=''"]
    by (simp add: space_not_upper class_facts)
  have bl: "blocked is_upper_us [Star is_space, Lit ''='', Star is_space, Lit [CHR 0x22],
              Lit ''govel.'', Plus not_quote, Lit [CHR 0x22]]"
    by (rule blocked_Star_Lit) (simp_all add: upper_not_space class_facts)
  show ?thesis
    unfolding literal_re_def
    by (rule run_plus_step [OF literal_tail_run [OF ws1 ws2 v] name(2) stop bl name(1)])
qed

lemma literal_sub_re_run:
  assumes indent: "list_all is_space indent"
    and name: "name \<noteq> []" "list_all is_upper_us name"
    and ws1: "list_all is_space ws1" and ws2: "list_all is_space ws2"
    and v: "v \<noteq> []" "list_all not_quote v"
  shows "run literal_sub_re
           (indent @ name @ ws1 @ ''='' @ ws2 @ [CHR 0x22] @ ''govel.'' @ v @ [CHR 0x22] @ rest)
         = [([indent, name, ws1, ''='', ws2, [CHR 0x22], ''govel.'', v, [CHR 0x22]], rest)]"
proof -
  let ?t = "name @ ws1 @ ''='' @ ws2 @ [CHR 0x22] @ ''govel.'' @ v @ [CHR 0x22] @ rest"
  have stop: "?t = [] \<or> \<not> is_space (hd ?t)"
    using name by (cases name) (auto simp: upper_not_space)
  have bl: "blocked is_space literal_re"
    unfolding literal_re_def by (rule blocked_Plus) (rule space_not_upper)
  have r: "run literal_re ?t
         = [([name, ws1, ''='', ws2, [CHR 0x22], ''govel.'', v, [CHR 0x22]], rest)]"
    by (rule literal_re_run [OF name ws1 ws2 v])
  show ?thesis
    unfolding literal_sub_re_def
    by (rule run_star_step [OF r indent stop bl])
qed


lemma split_lines_no_newline: "CHR 0x0A \<notin> set s \<Longrightarrow> split_lines s = [s]"
  by (induction s) auto

lemma re_search_app: "re_match pat s \<noteq> None \<Longrightarrow> re_search pat (a @ s)"
proof (induction a)
  case Nil
  then show ?case by (cases s) auto
next
  case (Cons c a)
  then show ?case by simp
qed

lemma re_sub_whole:
  assumes "s \<noteq> []" and "asrt prev s" and "re_match pat s = Some (ms, [])"
    and "re_match pat [] = None"
  shows "re_sub asrt pat repl prev s = repl ms"
proof -
  from assms(1) obtain c cs where s: "s = c # cs" by (cases s) auto
  show ?thesis
    using assms(2-4) unfolding s by (simp add: re_sub.simps)
qed

lemma literal_sub_re_empty: "re_match literal_sub_re [] = None"
  by (simp add: re_match_def literal_sub_re_def literal_re_def)


section \<open>The literal rewriter as a relation on texts\<close>


lemma literal_sub_re_shape:
  assumes "re_match literal_sub_re s = Some (ms, r)"
  shows "\<exists>indent name ws1 ws2 v.
           ms = [indent, name, ws1, ''='', ws2, [CHR 0x22], ''govel.'', v, [CHR 0x22]]
         \<and> s = indent @ name @ ws1 @ ''='' @ ws2 @ [CHR 0x22] @ ''govel.'' @ v @ [CHR 0x22] @ r
         \<and> list_all is_space indent \<and> name \<noteq> [] \<and> list_all is_upper_us name
         \<and> list_all is_space ws1 \<and> list_all is_space ws2 \<and> v \<noteq> [] \<and> list_all not_quote v"
proof -
  from re_match_sound [OF assms]
  have s: "s = concat ms @ r" and ok: "list_all2 atom_ok literal_sub_re ms" by auto
  from ok obtain m0 m1 m2 m3 m4 m5 m6 m7 m8 where ms: "ms = [m0, m1, m2, m3, m4, m5, m6, m7, m8]"
    and a: "atom_ok (Star is_space) m0" "atom_ok (Plus is_upper_us) m1"
      "atom_ok (Star is_space) m2" "atom_ok (Lit ''='') m3" "atom_ok (Star is_space) m4"
      "atom_ok (Lit [CHR 0x22]) m5" "atom_ok (Lit ''govel.'') m6" "atom_ok (Plus not_quote) m7"
      "atom_ok (Lit [CHR 0x22]) m8"
    unfolding literal_sub_re_def literal_re_def
    by (auto simp: list_all2_Cons1)
  from a s show ?thesis unfolding ms by simp
qed

lemma literal_re_shape:
  assumes "re_match literal_re s = Some (ms, r)"
  shows "\<exists>name ws1 ws2 v.
           s = name @ ws1 @ ''='' @ ws2 @ [CHR 0x22] @ ''govel.'' @ v @ [CHR 0x22] @ r
         \<and> name \<noteq> [] \<and> list_all is_upper_us name
         \<and> list_all is_space ws1 \<and> list_all is_space ws2 \<and> v \<noteq> [] \<and> list_all not_quote v"
proof -
  from re_match_sound [OF assms]
  have s: "s = concat ms @ r" and ok: "list_all2 atom_ok literal_re ms" by auto
  from ok obtain m1 m2 m3 m4 m5 m6 m7 m8 where ms: "ms = [m1, m2, m3, m4, m5, m6, m7, m8]"
    and a: "atom_ok (Plus is_upper_us) m1"
      "atom_ok (Star is_space) m2" "atom_ok (Lit ''='') m3" "atom_ok (Star is_space) m4"
      "atom_ok (Lit [CHR 0x22]) m5" "atom_ok (Lit ''govel.'') m6" "atom_ok (Plus not_quote) m7"
      "atom_ok (Lit [CHR 0x22]) m8"
    unfolding literal_re_def
    by (auto simp: list_all2_Cons1)
  from a s have "s = m1 @ m2 @ ''='' @ m4 @ [CHR 0x22] @ ''govel.'' @ m7 @ [CHR 0x22] @ r
         \<and> m1 \<noteq> [] \<and> list_all is_upper_us m1
         \<and> list_all is_space m2 \<and> list_all is_space m4 \<and> m7 \<noteq> [] \<and> list_all not_quote m7"
    unfolding ms by simp
  then show ?thesis by blast
qed

lemma rw_refl: "rw s s"
  by (induction s) (auto intro: rw.intros)

lemma rw_copies: "rw y z \<Longrightarrow> rw (a @ y) (a @ z)"
  by (induction a) (auto intro: rw.intros)

lemma rw_append: "rw a a' \<Longrightarrow> rw b b' \<Longrightarrow> rw (a @ b) (a' @ b')"
proof (induction rule: rw.induct)
  case rw_nil
  then show ?case by simp
next
  case (rw_copy y z c)
  then show ?case by (simp add: rw.rw_copy)
next
  case (rw_lit y z name ws1 ws2 v)
  from rw.rw_lit [OF rw_lit.IH [OF rw_lit.prems] rw_lit.hyps(2-7)]
  show ?case by simp
qed

lemma lit_sub_rw: "rw s (re_sub no_assertion literal_sub_re replace_func prev s)"
proof (induction "length s" arbitrary: s prev rule: less_induct)
  case less
  show ?case
  proof (cases s)
    case Nil
    then show ?thesis
      by (simp add: re_sub.simps literal_sub_re_empty rw_nil)
  next
    case (Cons c cs)
    show ?thesis
    proof (cases "re_match literal_sub_re s")
      case None
      have "rw cs (re_sub no_assertion literal_sub_re replace_func (Some c) cs)"
        by (rule less) (simp add: Cons)
      then show ?thesis
        using None unfolding Cons by (simp add: re_sub.simps rw_copy)
    next
      case (Some a)
      obtain ms r where a: "a = (ms, r)" by (cases a)
      from literal_sub_re_shape [OF Some [unfolded a]]
      obtain indent name ws1 ws2 v where
        ms: "ms = [indent, name, ws1, ''='', ws2, [CHR 0x22], ''govel.'', v, [CHR 0x22]]"
        and s: "s = indent @ name @ ws1 @ ''='' @ ws2 @ [CHR 0x22] @ ''govel.'' @ v @ [CHR 0x22] @ r"
        and p: "list_all is_space indent" "name \<noteq> []" "list_all is_upper_us name"
          "list_all is_space ws1" "list_all is_space ws2" "v \<noteq> []" "list_all not_quote v"
        by blast
      from s p(2) have len: "length r < length s" by simp
      let ?p = "Some (last (take (length s - length r) s))"
      have ih: "rw r (re_sub no_assertion literal_sub_re replace_func ?p r)"
        by (rule less) (rule len)
      have "re_sub no_assertion literal_sub_re replace_func prev s
              = replace_func ms @ re_sub no_assertion literal_sub_re replace_func ?p r"
        using Some len unfolding a Cons
        by (simp add: re_sub.simps no_assertion_def)
      also have "replace_func ms
           = indent @ name @ '' = symbol.For('' @ [CHR 0x22] @ ''govel.'' @ v @ [CHR 0x22] @ '')''"
        by (simp add: ms)
      finally have out: "re_sub no_assertion literal_sub_re replace_func prev s
         = indent @ (name @ '' = symbol.For('' @ [CHR 0x22] @ ''govel.'' @ v @ [CHR 0x22] @ '')''
              @ re_sub no_assertion literal_sub_re replace_func ?p r)"
        by simp
      have "rw (indent @ (name @ ws1 @ ''='' @ ws2 @ [CHR 0x22] @ ''govel.'' @ v @ [CHR 0x22] @ r))
               (indent @ (name @ '' = symbol.For('' @ [CHR 0x22] @ ''govel.'' @ v @ [CHR 0x22] @ '')''
              @ re_sub no_assertion literal_sub_re replace_func ?p r))"
        by (rule rw_copies, rule rw_lit [OF ih p(2-7)])
      then show ?thesis unfolding out using s by simp
    qed
  qed
qed

lemma rewrite_line_rw: "rw line (rewrite_line line)"
  by (simp add: rewrite_line_def lit_sub_rw rw_refl)

lemma rw_no_newline: "rw y z \<Longrightarrow> CHR 0x0A \<notin> set y \<Longrightarrow> CHR 0x0A \<notin> set z"
  by (induction rule: rw.induct) auto


lemma re_search_split: "re_search pat s \<Longrightarrow> \<exists>pre t. s = pre @ t \<and> re_match pat t \<noteq> None"
proof (induction s)
  case Nil
  then show ?case by auto
next
  case (Cons c cs)
  show ?case
  proof (cases "re_match pat (c # cs) \<noteq> None")
    case True
    then have "c # cs = [] @ (c # cs) \<and> re_match pat (c # cs) \<noteq> None" by simp
    then show ?thesis by blast
  next
    case False
    with Cons.prems have "re_search pat cs" by simp
    from Cons.IH [OF this] obtain pre t where "cs = pre @ t" "re_match pat t \<noteq> None" by blast
    then have "c # cs = (c # pre) @ t \<and> re_match pat t \<noteq> None" by simp
    then show ?thesis by blast
  qed
qed

lemma re_search_iff: "re_search literal_re line \<longleftrightarrow> has_assignment line"
proof
  assume "re_search literal_re line"
  from re_search_split [OF this] obtain pre t ms r where "line = pre @ t"
    "re_match literal_re t = Some (ms, r)" by auto
  with literal_re_shape [of t ms r] show "has_assignment line"
    unfolding has_assignment_def by blast
next
  assume "has_assignment line"
  then obtain pre name ws1 ws2 v post where
    l: "line = pre @ (name @ ws1 @ ''='' @ ws2 @ [CHR 0x22] @ ''govel.'' @ v @ [CHR 0x22] @ post)"
    and p: "name \<noteq> []" "list_all is_upper_us name" "list_all is_space ws1"
      "list_all is_space ws2" "v \<noteq> []" "list_all not_quote v"
    unfolding has_assignment_def by auto
  have "re_match literal_re
          (name @ ws1 @ ''='' @ ws2 @ [CHR 0x22] @ ''govel.'' @ v @ [CHR 0x22] @ post) \<noteq> None"
    by (simp only: re_match_def literal_re_run [OF p]) simp
  then show "re_search literal_re line"
    unfolding l by (rule re_search_app)
qed

lemma split_lines_no_nl: "l \<in> set (split_lines s) \<Longrightarrow> CHR 0x0A \<notin> set l"
proof (induction s arbitrary: l)
  case Nil
  then show ?case by simp
next
  case (Cons c cs)
  obtain l0 ls where sp: "split_lines cs = l0 # ls"
    using split_lines_nonempty [of cs] by (cases "split_lines cs") auto
  from Cons.IH [unfolded sp] have ih: "CHR 0x0A \<notin> set l0" "\<And>x. x \<in> set ls \<Longrightarrow> CHR 0x0A \<notin> set x"
    by auto
  from Cons.prems sp ih show ?case by (auto split: if_splits)
qed

lemma split_join_lines:
  "ls \<noteq> [] \<Longrightarrow> (\<forall>l \<in> set ls. CHR 0x0A \<notin> set l) \<Longrightarrow> split_lines (join_lines ls) = ls"
proof (induction ls rule: join_lines.induct)
  case 1
  then show ?case by simp
next
  case (2 l)
  then show ?case by (simp add: split_lines_no_newline)
next
  case (3 l x xs)
  then have ih: "split_lines (join_lines (x # xs)) = x # xs" by simp
  have app: "split_lines (a @ CHR 0x0A # t) = a # split_lines t" if "CHR 0x0A \<notin> set a" for a t
    using that by (induction a) auto
  from 3 ih show ?case by (simp add: app)
qed

lemma convert_string_lines:
  "split_lines (convert_string_to_symbol content) = map rewrite_line (split_lines content)"
  unfolding convert_string_to_symbol_def
proof (rule split_join_lines)
  show "map rewrite_line (split_lines content) \<noteq> []"
    by (simp add: split_lines_nonempty)
  show "\<forall>l \<in> set (map rewrite_line (split_lines content)). CHR 0x0A \<notin> set l"
    using rw_no_newline [OF rewrite_line_rw] split_lines_no_nl by auto
qed

lemma rewrite_line_whole:
  assumes indent: "list_all is_space indent"
    and name: "name \<noteq> []" "list_all is_upper_us name"
    and ws1: "list_all is_space ws1" and ws2: "list_all is_space ws2"
    and v: "v \<noteq> []" "list_all not_quote v"
    and line: "line = indent @ name @ ws1 @ ''='' @ ws2 @ [CHR 0x22] @ ''govel.'' @ v @ [CHR 0x22]"
    and guard: "\<not> contains ''symbol.For('' line"
  shows "rewrite_line line
           = indent @ name @ '' = symbol.For('' @ [CHR 0x22] @ ''govel.'' @ v @ [CHR 0x22] @ '')''"
proof -
  let ?t = "name @ ws1 @ ''='' @ ws2 @ [CHR 0x22] @ ''govel.'' @ v @ [CHR 0x22] @ []"
  let ?ms = "[indent, name, ws1, ''='', ws2, [CHR 0x22], ''govel.'', v, [CHR 0x22]]"
  have l1: "line = indent @ ?t" by (simp add: line)
  have "re_match literal_re ?t \<noteq> None"
    by (simp only: re_match_def literal_re_run [OF name ws1 ws2 v]) simp
  then have search: "re_search literal_re line"
    unfolding l1 by (rule re_search_app)
  have m: "re_match literal_sub_re line = Some (?ms, [])"
    unfolding l1
    by (simp only: re_match_def literal_sub_re_run [OF indent name ws1 ws2 v]) simp
  have ne: "line \<noteq> []" using name(1) by (simp add: line)
  have "re_sub no_assertion literal_sub_re replace_func None line = replace_func ?ms"
    by (rule re_sub_whole [OF ne _ m literal_sub_re_empty]) (simp add: no_assertion_def)
  with guard search show ?thesis
    by (simp add: rewrite_line_def)
qed



section \<open>The declaration converter, step by step\<close>


lemma const_open_run:
  assumes "list_all is_space ws"
  shows "run const_open_re (''const'' @ ws @ ''('' @ z) = [([''const'', ws, ''(''], z)]"
proof -
  have r0: "run [] z = [([], z)]" by simp
  have r1: "run [Lit ''(''] (''('' @ z) = [([''(''], z)]"
    by (rule run_lit_step [OF r0])
  have r2: "run [Star is_space, Lit ''(''] (ws @ ''('' @ z) = [([ws, ''(''], z)]"
    by (rule run_star_step [OF r1 assms]) (simp_all add: class_facts blocked_Lit)
  show ?thesis
    unfolding const_open_re_def by (rule run_lit_step [OF r2])
qed

lemma const_open_shape:
  assumes "re_match const_open_re s = Some (ms, r)"
  shows "\<exists>ws. s = ''const'' @ ws @ ''('' @ r \<and> list_all is_space ws"
proof -
  from re_match_sound [OF assms]
  have s: "s = concat ms @ r" and ok: "list_all2 atom_ok const_open_re ms" by auto
  from ok obtain m1 m2 m3 where ms: "ms = [m1, m2, m3]"
    and a: "atom_ok (Lit ''const'') m1" "atom_ok (Star is_space) m2" "atom_ok (Lit ''('') m3"
    unfolding const_open_re_def by (auto simp: list_all2_Cons1)
  from a s have "s = ''const'' @ m2 @ ''('' @ r \<and> list_all is_space m2"
    unfolding ms by simp
  then show ?thesis by blast
qed

lemma dropWhile_spaces_paren:
  "list_all is_space ws \<Longrightarrow> dropWhile is_space (ws @ CHR ''('' # z) = CHR ''('' # z"
  by (induction ws) (auto simp: class_facts)

lemma opener_decompose:
  assumes "prefix ''const'' s"
    and "(case dropWhile is_space (drop 5 s) of [] \<Rightarrow> False | c # _ \<Rightarrow> c = CHR ''('')"
  shows "\<exists>ws z. s = ''const'' @ ws @ ''('' @ z \<and> list_all is_space ws"
proof -
  from assms(1) obtain t where s: "s = ''const'' @ t" by (auto simp: prefix_def)
  then have d: "drop 5 s = t" by simp
  from assms(2) obtain z where z: "dropWhile is_space t = CHR ''('' # z"
    unfolding d by (auto split: list.splits)
  have "t = takeWhile is_space t @ dropWhile is_space t" by simp
  then have "s = ''const'' @ takeWhile is_space t @ ''('' @ z"
    unfolding s z by simp
  moreover have "list_all is_space (takeWhile is_space t)"
    by (auto simp: list_all_iff dest: set_takeWhileD)
  ultimately show ?thesis by blast
qed

lemma is_opener_iff:
  "is_opener prev s \<longleftrightarrow>
     (case prev of None \<Rightarrow> True | Some c \<Rightarrow> \<not> is_word c)
     \<and> (\<exists>ws z. s = ''const'' @ ws @ ''('' @ z \<and> list_all is_space ws)"
proof -
  have "prefix ''const'' s
     \<and> (case dropWhile is_space (drop 5 s) of [] \<Rightarrow> False | c # _ \<Rightarrow> c = CHR ''('')"
    if "s = ''const'' @ ws @ ''('' @ z" "list_all is_space ws" for ws z
    using that by (simp add: dropWhile_spaces_paren)
  then show ?thesis
    unfolding is_opener_def using opener_decompose [of s] by blast
qed

lemma opens_iff:
  "word_boundary prev s \<and> re_match const_open_re s \<noteq> None \<longleftrightarrow> is_opener prev s"
proof
  assume a: "word_boundary prev s \<and> re_match const_open_re s \<noteq> None"
  then obtain ms r where "re_match const_open_re s = Some (ms, r)" by auto
  from const_open_shape [OF this] obtain ws where
    s: "s = ''const'' @ ws @ ''('' @ r" and ws: "list_all is_space ws" by blast
  from a have "case prev of None \<Rightarrow> True | Some c \<Rightarrow> \<not> is_word c"
    unfolding s by (auto simp: word_boundary_def is_word_def split: option.splits)
  with s ws show "is_opener prev s" unfolding is_opener_iff by blast
next
  assume "is_opener prev s"
  then obtain ws z where p: "case prev of None \<Rightarrow> True | Some c \<Rightarrow> \<not> is_word c"
    and s: "s = ''const'' @ ws @ ''('' @ z" and ws: "list_all is_space ws"
    unfolding is_opener_iff by blast
  have "re_match const_open_re s \<noteq> None"
    unfolding s by (simp only: re_match_def const_open_run [OF ws]) simp
  moreover from p have "word_boundary prev s"
    unfolding s by (auto simp: word_boundary_def is_word_def split: option.splits)
  ultimately show "word_boundary prev s \<and> re_match const_open_re s \<noteq> None" by simp
qed

lemma sub_const_Nil: "sub_const prev [] = []"
  by (simp add: sub_const_def re_sub.simps re_match_def const_open_re_def)

lemma sub_const_copy:
  "\<not> is_opener prev (c # cs) \<Longrightarrow> sub_const prev (c # cs) = c # sub_const (Some c) cs"
proof -
  assume "\<not> is_opener prev (c # cs)"
  then have "(if word_boundary prev (c # cs) then re_match const_open_re (c # cs) else None) = None"
    using opens_iff [of prev "c # cs"]
    by (cases "re_match const_open_re (c # cs)") auto
  then show ?thesis
    unfolding sub_const_def by (subst re_sub.simps) (simp only: option.case)
qed

lemma sub_const_open:
  assumes "is_opener prev (''const'' @ ws @ ''('' @ z)" and ws: "list_all is_space ws"
  shows "sub_const prev (''const'' @ ws @ ''('' @ z) = ''var ('' @ sub_const (Some (CHR ''('')) z"
proof -
  let ?s = "''const'' @ ws @ ''('' @ z"
  have wb: "word_boundary prev ?s" using assms(1) opens_iff [of prev ?s] by simp
  have m: "re_match const_open_re ?s = Some ([''const'', ws, ''(''], z)"
    by (simp only: re_match_def const_open_run [OF ws]) simp
  have "take (length (a @ z) - length z) (a @ z) = a" for a :: string by simp
  from this [of "''const'' @ ws @ ''(''"]
  have tk: "take (length ?s - length z) ?s = ''const'' @ ws @ ''(''" by simp
  have "re_sub word_boundary const_open_re (\<lambda>ms. ''var ('') prev (CHR ''c'' # ''onst'' @ ws @ ''('' @ z)
          = ''var ('' @ re_sub word_boundary const_open_re (\<lambda>ms. ''var ('')
               (Some (last (take (length ?s - length z) ?s))) z"
    using wb m by (subst re_sub.simps) simp
  then show ?thesis
    unfolding sub_const_def tk by simp
qed


lemma not_opener_head: "c \<noteq> CHR ''c'' \<Longrightarrow> \<not> is_opener p (c # cs)"
  by (auto simp: is_opener_def)

lemma count_skip:
  "\<forall>ch \<in> set a. ch \<noteq> CHR ''c'' \<Longrightarrow> count_openers p (a @ z) = count_openers (prev_after p a) z"
proof (induction a arbitrary: p)
  case Nil
  then show ?case by (simp add: prev_after_def)
next
  case (Cons x a)
  then have "count_openers p ((x # a) @ z) = count_openers (prev_after (Some x) a) z"
    by (simp add: not_opener_head)
  then show ?case by (simp add: prev_after_def)
qed

lemma space_not_c: "list_all is_space ws \<Longrightarrow> \<forall>ch \<in> set ws. ch \<noteq> CHR ''c''"
  by (auto simp: list_all_iff is_space_def)

lemma count_opener_block:
  assumes "is_opener p (''const'' @ ws @ ''('' @ z)" and "list_all is_space ws"
  shows "count_openers p (''const'' @ ws @ ''('' @ z) = Suc (count_openers (Some (CHR ''('')) z)"
proof -
  have "\<forall>ch \<in> set (''onst'' @ ws @ ''(''). ch \<noteq> CHR ''c''"
    using space_not_c [OF assms(2)] by auto
  from count_skip [OF this, of "Some (CHR ''c'')" z]
  have "count_openers (Some (CHR ''c'')) (''onst'' @ ws @ ''('' @ z)
          = count_openers (Some (CHR ''('')) z"
    by (simp add: prev_after_def)
  with assms(1) show ?thesis by simp
qed

lemma sub_const_cases:
  obtains (nil) "s = []"
  | (opener) ws z where "s = ''const'' @ ws @ ''('' @ z" "list_all is_space ws" "is_opener prev s"
  | (copy) c cs where "s = c # cs" "\<not> is_opener prev s"
proof (cases "is_opener prev s")
  case True
  then obtain ws z where "s = ''const'' @ ws @ ''('' @ z" "list_all is_space ws"
    unfolding is_opener_iff by blast
  with True show ?thesis by (rule_tac opener)
next
  case False
  then show ?thesis by (cases s) (auto intro: nil copy)
qed

lemma weave_cons: "weave ((c # u) # us) ms = c # weave (u # us) ms"
  by (cases ms) auto

lemma sub_const_segments:
  "\<exists>us ms. length us = Suc (length ms) \<and> s = weave us ms
      \<and> sub_const prev s = weave us (map (\<lambda>m. ''var ('') ms)
      \<and> (\<forall>m \<in> set ms. \<exists>ws. m = ''const'' @ ws @ ''('' \<and> list_all is_space ws)
      \<and> length ms = count_openers prev s"
proof (induction "length s" arbitrary: s prev rule: less_induct)
  case less
  show ?case
  proof (cases rule: sub_const_cases [where s = s and prev = prev])
    case nil
    have "length [[]::string] = Suc (length ([]::string list)) \<and> s = weave [[]] []
      \<and> sub_const prev s = weave [[]] (map (\<lambda>m. ''var ('') [])
      \<and> (\<forall>m \<in> set ([]::string list). \<exists>ws. m = ''const'' @ ws @ ''('' \<and> list_all is_space ws)
      \<and> length ([]::string list) = count_openers prev s"
      using nil by (simp add: sub_const_Nil)
    then show ?thesis by blast
  next
    case (opener ws z)
    have "length z < length s" using opener(1) by simp
    from less [OF this, of "Some (CHR ''('')"] obtain us ms where
      ih: "length us = Suc (length ms)" "z = weave us ms"
        "sub_const (Some (CHR ''('')) z = weave us (map (\<lambda>m. ''var ('') ms)"
        "\<forall>m \<in> set ms. \<exists>ws. m = ''const'' @ ws @ ''('' \<and> list_all is_space ws"
        "length ms = count_openers (Some (CHR ''('')) z"
      by blast
    let ?m = "''const'' @ ws @ ''(''"
    have 1: "length ([] # us) = Suc (length (?m # ms))" using ih(1) by simp
    have 2: "s = weave ([] # us) (?m # ms)" using opener(1) ih(2) by simp
    have 3: "sub_const prev s = weave ([] # us) (map (\<lambda>m. ''var ('') (?m # ms))"
      using sub_const_open [OF opener(3) [unfolded opener(1)] opener(2)] ih(3)
      unfolding opener(1) by simp
    have 4: "\<forall>m \<in> set (?m # ms). \<exists>ws. m = ''const'' @ ws @ ''('' \<and> list_all is_space ws"
      using ih(4) opener(2) by auto
    have 5: "length (?m # ms) = count_openers prev s"
      using count_opener_block [OF opener(3) [unfolded opener(1)] opener(2)] ih(5)
      unfolding opener(1) by simp
    from 1 2 3 4 5 show ?thesis by blast
  next
    case (copy c cs)
    have "length cs < length s" using copy(1) by simp
    from less [OF this, of "Some c"] obtain us ms where
      ih: "length us = Suc (length ms)" "cs = weave us ms"
        "sub_const (Some c) cs = weave us (map (\<lambda>m. ''var ('') ms)"
        "\<forall>m \<in> set ms. \<exists>ws. m = ''const'' @ ws @ ''('' \<and> list_all is_space ws"
        "length ms = count_openers (Some c) cs"
      by blast
    from ih(1) obtain u us' where us: "us = u # us'" by (cases us) auto
    have 1: "length ((c # u) # us') = Suc (length ms)" using ih(1) us by simp
    have 2: "s = weave ((c # u) # us') ms" using copy(1) ih(2) us by (simp add: weave_cons)
    have 3: "sub_const prev s = weave ((c # u) # us') (map (\<lambda>m. ''var ('') ms)"
      using sub_const_copy [of prev c cs] copy ih(3) us by (simp add: weave_cons)
    have 5: "length ms = count_openers prev s"
      using copy ih(5) by simp
    from 1 2 3 ih(4) 5 show ?thesis by blast
  qed
qed

lemma sub_const_prefix_inv:
  "sub_const p t = a @ z \<Longrightarrow> CHR ''v'' \<notin> set a
     \<Longrightarrow> \<exists>z'. t = a @ z' \<and> sub_const (prev_after p a) z' = z"
proof (induction a arbitrary: t p)
  case Nil
  then show ?case by (simp add: prev_after_def)
next
  case (Cons x a)
  show ?case
  proof (cases rule: sub_const_cases [where s = t and prev = p])
    case nil
    with Cons.prems show ?thesis by (simp add: sub_const_Nil)
  next
    case (opener ws z0)
    from sub_const_open [OF opener(3) [unfolded opener(1)] opener(2)] Cons.prems
    show ?thesis unfolding opener(1) by simp
  next
    case (copy c cs)
    with Cons.prems sub_const_copy [of p c cs]
    have x: "c = x" and out: "sub_const (Some x) cs = a @ z" by auto
    from Cons.IH [OF out] Cons.prems(2) obtain z' where
      "cs = a @ z'" "sub_const (prev_after (Some x) a) z' = z" by auto
    then show ?thesis unfolding copy(1) x by (auto simp: prev_after_def)
  qed
qed

lemma sub_const_no_new_opener:
  assumes "\<not> is_opener prev (c # cs)"
  shows "\<not> is_opener prev (c # sub_const (Some c) cs)"
proof
  assume "is_opener prev (c # sub_const (Some c) cs)"
  then obtain ws y where p: "case prev of None \<Rightarrow> True | Some c \<Rightarrow> \<not> is_word c"
    and o: "c # sub_const (Some c) cs = ''const'' @ ws @ ''('' @ y" and ws: "list_all is_space ws"
    unfolding is_opener_iff by blast
  from o have c: "c = CHR ''c''" and out: "sub_const (Some c) cs = (''onst'' @ ws @ ''('') @ y"
    by auto
  have "CHR ''v'' \<notin> set (''onst'' @ ws @ ''('')"
    using ws by (auto simp: list_all_iff is_space_def)
  from sub_const_prefix_inv [OF out this] obtain z' where "cs = (''onst'' @ ws @ ''('') @ z'"
    by blast
  then have "c # cs = ''const'' @ ws @ ''('' @ z'" using c by simp
  with p ws have "is_opener prev (c # cs)" unfolding is_opener_iff by blast
  with assms show False by simp
qed

lemma sub_const_no_opener: "count_openers prev (sub_const prev s) = 0"
proof (induction "length s" arbitrary: s prev rule: less_induct)
  case less
  show ?case
  proof (cases rule: sub_const_cases [where s = s and prev = prev])
    case nil
    then show ?thesis by (simp add: sub_const_Nil)
  next
    case (opener ws z)
    have "length z < length s" using opener(1) by simp
    from less [OF this, of "Some (CHR ''('')"]
    have ih: "count_openers (Some (CHR ''('')) (sub_const (Some (CHR ''('')) z) = 0" .
    have "\<forall>ch \<in> set ''var (''. ch \<noteq> CHR ''c''" by simp
    from count_skip [OF this, of prev "sub_const (Some (CHR ''('')) z"] ih
    have "count_openers prev (''var ('' @ sub_const (Some (CHR ''('')) z) = 0"
      by (simp add: prev_after_def)
    then show ?thesis
      using sub_const_open [OF opener(3) [unfolded opener(1)] opener(2)]
      unfolding opener(1) by simp
  next
    case (copy c cs)
    have "length cs < length s" using copy(1) by simp
    from less [OF this, of "Some c"]
    have ih: "count_openers (Some c) (sub_const (Some c) cs) = 0" .
    from copy have "\<not> is_opener prev (c # sub_const (Some c) cs)"
      by (intro sub_const_no_new_opener) simp
    with ih show ?thesis
      using sub_const_copy [of prev c cs] copy by simp
  qed
qed

lemma sub_const_id: "count_openers p s = 0 \<Longrightarrow> sub_const p s = s"
proof (induction s arbitrary: p)
  case Nil
  show ?case by (rule sub_const_Nil)
next
  case (Cons c cs)
  then have "\<not> is_opener p (c # cs)" and "count_openers (Some c) cs = 0"
    by (auto split: if_splits)
  with Cons.IH [of "Some c"] show ?case by (simp add: sub_const_copy)
qed



section \<open>Openers and the literal rewriter\<close>


lemma prefix_breaker: "x \<notin> set l \<Longrightarrow> prefix l (a @ x # b) = prefix l a"
proof (induction l arbitrary: a)
  case Nil
  then show ?case by simp
next
  case (Cons y l)
  then show ?case by (cases a) auto
qed

lemma dropWhile_breaker:
  "\<not> P x \<Longrightarrow> x \<noteq> k \<Longrightarrow>
     (case dropWhile P (a @ x # b) of [] \<Rightarrow> False | c # _ \<Rightarrow> c = k)
       = (case dropWhile P a of [] \<Rightarrow> False | c # _ \<Rightarrow> c = k)"
  by (induction a) auto

lemma opener_breaker:
  assumes "breaker x"
  shows "is_opener p (a @ x # b) = is_opener p a"
proof (cases "prefix ''const'' a")
  case True
  then obtain a' where a: "a = ''const'' @ a'" by (auto simp: prefix_def)
  have "(case dropWhile is_space (a' @ x # b) of [] \<Rightarrow> False | c # _ \<Rightarrow> c = CHR ''('')
       = (case dropWhile is_space a' of [] \<Rightarrow> False | c # _ \<Rightarrow> c = CHR ''('')"
    using assms by (intro dropWhile_breaker) (auto simp: breaker_def)
  then show ?thesis unfolding a is_opener_def by simp
next
  case False
  moreover have "prefix ''const'' (a @ x # b) = prefix ''const'' a"
    using assms by (intro prefix_breaker) (auto simp: breaker_def)
  ultimately show ?thesis by (simp add: is_opener_def)
qed

lemma breaker_not_c: "breaker x \<Longrightarrow> x \<noteq> CHR ''c''"
  by (auto simp: breaker_def)

lemma count_breaker:
  "breaker x \<Longrightarrow> count_openers p (a @ x # b) = count_openers p a + count_openers (Some x) b"
proof (induction a arbitrary: p)
  case Nil
  then show ?case by (simp add: not_opener_head breaker_not_c)
next
  case (Cons c a)
  from opener_breaker [OF Cons.prems, of p "c # a" b]
  have "is_opener p (c # a @ x # b) = is_opener p (c # a)" by simp
  with Cons.IH [OF Cons.prems, of "Some c"] show ?case by simp
qed

lemma is_opener_prev_cong:
  "(case p of None \<Rightarrow> True | Some c \<Rightarrow> \<not> is_word c) = (case q of None \<Rightarrow> True | Some c \<Rightarrow> \<not> is_word c)
     \<Longrightarrow> is_opener p s = is_opener q s"
  by (simp add: is_opener_def)

lemma count_prev_cong:
  "(case p of None \<Rightarrow> True | Some c \<Rightarrow> \<not> is_word c) = (case q of None \<Rightarrow> True | Some c \<Rightarrow> \<not> is_word c)
     \<Longrightarrow> count_openers p s = count_openers q s"
  by (cases s) (auto simp: is_opener_prev_cong [of p q])

lemma rw_prefix_inv_aux:
  "rw y z \<Longrightarrow> z = a @ t \<Longrightarrow> \<forall>ch \<in> set a. \<not> is_upper_us ch \<Longrightarrow> \<exists>t'. y = a @ t' \<and> rw t' t"
proof (induction arbitrary: a rule: rw.induct)
  case rw_nil
  then show ?case by (auto intro: rw.rw_nil)
next
  case (rw_copy y z c)
  show ?case
  proof (cases a)
    case Nil
    with rw_copy.prems rw.rw_copy [OF rw_copy.hyps] show ?thesis by auto
  next
    case (Cons x a')
    with rw_copy.prems have "z = a' @ t" "\<forall>ch \<in> set a'. \<not> is_upper_us ch" "x = c" by auto
    from rw_copy.IH [OF this(1,2)] this(3) Cons show ?thesis by auto
  qed
next
  case (rw_lit y z name ws1 ws2 v)
  show ?case
  proof (cases a)
    case Nil
    with rw_lit.prems rw.rw_lit [OF rw_lit.hyps] show ?thesis by auto
  next
    case (Cons x a')
    with rw_lit.prems rw_lit.hyps(2,3) have "is_upper_us x" by (cases name) auto
    with Cons rw_lit.prems show ?thesis by simp
  qed
qed

lemma rw_prefix_inv:
  "rw y (a @ t) \<Longrightarrow> \<forall>ch \<in> set a. \<not> is_upper_us ch \<Longrightarrow> \<exists>t'. y = a @ t' \<and> rw t' t"
  by (rule rw_prefix_inv_aux) auto


lemma upper_not_c: "list_all is_upper_us name \<Longrightarrow> \<forall>ch \<in> set name. ch \<noteq> CHR ''c''"
  by (auto simp: list_all_iff is_upper_us_def)

lemma opener_chars_not_upper:
  "list_all is_space ws \<Longrightarrow> \<forall>ch \<in> set (''onst'' @ ws @ ''(''). \<not> is_upper_us ch"
proof -
  assume "list_all is_space ws"
  then have "\<forall>ch \<in> set ws. \<not> is_upper_us ch"
    by (auto simp: list_all_iff dest: space_not_upper)
  moreover have "\<forall>ch \<in> set ''onst(''. \<not> is_upper_us ch"
    by (simp add: is_upper_us_def)
  ultimately show ?thesis by auto
qed

lemma rw_no_new_opener_head:
  assumes "rw y z" and "\<not> is_opener p (c # y)"
  shows "\<not> is_opener p (c # z)"
proof
  assume "is_opener p (c # z)"
  then obtain ws t where p: "case p of None \<Rightarrow> True | Some c \<Rightarrow> \<not> is_word c"
    and o: "c # z = ''const'' @ ws @ ''('' @ t" and ws: "list_all is_space ws"
    unfolding is_opener_iff by blast
  from o have c: "c = CHR ''c''" and z: "z = (''onst'' @ ws @ ''('') @ t" by auto
  from rw_prefix_inv [OF assms(1) [unfolded z] opener_chars_not_upper [OF ws]]
  obtain t' where "y = (''onst'' @ ws @ ''('') @ t'" by blast
  then have "c # y = ''const'' @ ws @ ''('' @ t'" using c by simp
  with p ws have "is_opener p (c # y)" unfolding is_opener_iff by blast
  with assms(2) show False by simp
qed

lemma rw_no_new_openers:
  "rw y z \<Longrightarrow> count_openers p y = 0 \<Longrightarrow> count_openers p z = 0"
proof (induction arbitrary: p rule: rw.induct)
  case rw_nil
  then show ?case by simp
next
  case (rw_copy y z c)
  from rw_copy.prems have no: "\<not> is_opener p (c # y)" and tl: "count_openers (Some c) y = 0"
    by (auto split: if_splits)
  from rw_no_new_opener_head [OF rw_copy.hyps no] rw_copy.IH [OF tl] show ?case by simp
next
  case (rw_lit y z name ws1 ws2 v)
  let ?q = "CHR 0x22"
  let ?pre_y = "name @ ws1 @ ''='' @ ws2 @ [?q] @ ''govel.''"
  let ?pre_z = "name @ '' = symbol.For('' @ [?q] @ ''govel.''"
  have bq: "breaker ?q" by (simp add: breaker_def is_space_def)
  have ny: "\<forall>ch \<in> set ?pre_y. ch \<noteq> CHR ''c''"
    using upper_not_c [OF rw_lit.hyps(3)] space_not_c [OF rw_lit.hyps(4)]
      space_not_c [OF rw_lit.hyps(5)] by auto
  have nz: "\<forall>ch \<in> set ?pre_z. ch \<noteq> CHR ''c''"
    using upper_not_c [OF rw_lit.hyps(3)] by auto
  have py: "prev_after p ?pre_y = Some (CHR ''.'')" by (simp add: prev_after_def)
  have pz: "prev_after p ?pre_z = Some (CHR ''.'')" by (simp add: prev_after_def)
  have "count_openers p (?pre_y @ (v @ ?q # y)) = count_openers (Some (CHR ''.'')) (v @ ?q # y)"
    using count_skip [OF ny, of p "v @ ?q # y"] unfolding py .
  also have "\<dots> = count_openers (Some (CHR ''.'')) v + count_openers (Some ?q) y"
    by (rule count_breaker [OF bq])
  finally have "count_openers (Some (CHR ''.'')) v + count_openers (Some ?q) y = 0"
    using rw_lit.prems by simp
  then have v0: "count_openers (Some (CHR ''.'')) v = 0" and y0: "count_openers (Some ?q) y = 0"
    by simp_all
  have z0: "count_openers (Some (CHR '')'')) z = 0"
    using rw_lit.IH [OF y0] count_prev_cong [of "Some (CHR '')'')" "Some ?q" z]
    by (simp add: is_word_def)
  have "count_openers p (?pre_z @ (v @ ?q # CHR '')'' # z))
          = count_openers (Some (CHR ''.'')) (v @ ?q # CHR '')'' # z)"
    using count_skip [OF nz, of p "v @ ?q # CHR '')'' # z"] unfolding pz .
  also have "\<dots> = count_openers (Some (CHR ''.'')) v + count_openers (Some ?q) (CHR '')'' # z)"
    by (rule count_breaker [OF bq])
  also have "\<dots> = 0"
    using v0 z0 by (simp add: not_opener_head)
  finally show ?case by simp
qed

lemma rw_join_lines: "rw (join_lines ls) (join_lines (map rewrite_line ls))"
proof (induction ls rule: join_lines.induct)
  case 1
  show ?case by (simp add: rw_nil)
next
  case (2 l)
  show ?case by (simp add: rewrite_line_rw)
next
  case (3 l x xs)
  have "rw (l @ CHR 0x0A # join_lines (x # xs))
           (rewrite_line l @ CHR 0x0A # join_lines (map rewrite_line (x # xs)))"
    by (rule rw_append [OF rewrite_line_rw rw_copy [OF 3]])
  then show ?case by simp
qed

lemma convert_string_rw: "rw content (convert_string_to_symbol content)"
  using rw_join_lines [of "split_lines content"]
  by (simp add: convert_string_to_symbol_def join_split_lines)


lemma contains_here: "contains p (p @ b)"
proof -
  have "prefix p (p @ b)" by simp
  then show ?thesis by (cases "p @ b") auto
qed

lemma contains_app: "contains p (a @ p @ b)"
  by (induction a) (auto simp: contains_here)

lemma contains_Cons: "contains p s \<Longrightarrow> contains p (c # s)"
  by simp

lemma literal_re_imp_sub_re:
  assumes "re_match literal_re s \<noteq> None"
  shows "re_match literal_sub_re s \<noteq> None"
proof -
  from assms obtain ms r where "re_match literal_re s = Some (ms, r)" by auto
  from literal_re_shape [OF this] obtain name ws1 ws2 v where
    s: "s = name @ ws1 @ ''='' @ ws2 @ [CHR 0x22] @ ''govel.'' @ v @ [CHR 0x22] @ r"
    and p: "name \<noteq> []" "list_all is_upper_us name" "list_all is_space ws1"
      "list_all is_space ws2" "v \<noteq> []" "list_all not_quote v"
    by blast
  have "list_all is_space []" by simp
  from literal_sub_re_run [OF this p, of r] show ?thesis
    unfolding s re_match_def by simp
qed

lemma lit_sub_marks:
  "re_search literal_re s
     \<Longrightarrow> contains ''symbol.For('' (re_sub no_assertion literal_sub_re replace_func prev s)"
proof (induction "length s" arbitrary: s prev rule: less_induct)
  case less
  show ?case
  proof (cases s)
    case Nil
    with less.prems show ?thesis by (simp add: re_match_def literal_re_def)
  next
    case (Cons c cs)
    show ?thesis
    proof (cases "re_match literal_sub_re s")
      case None
      with literal_re_imp_sub_re [of s] have "re_match literal_re s = None"
        by (cases "re_match literal_re s") auto
      with less.prems have "re_search literal_re cs" unfolding Cons by simp
      moreover have "length cs < length s" by (simp add: Cons)
      ultimately have "contains ''symbol.For(''
          (re_sub no_assertion literal_sub_re replace_func (Some c) cs)"
        using less.hyps by blast
      then show ?thesis
        using None unfolding Cons by (simp add: re_sub.simps)
    next
      case (Some a)
      obtain ms r where a: "a = (ms, r)" by (cases a)
      from literal_sub_re_shape [OF Some [unfolded a]]
      obtain indent name ws1 ws2 v where
        ms: "ms = [indent, name, ws1, ''='', ws2, [CHR 0x22], ''govel.'', v, [CHR 0x22]]"
        by blast
      let ?rest = "if length r < length s
         then re_sub no_assertion literal_sub_re replace_func
                (Some (last (take (length s - length r) s))) r
         else c # re_sub no_assertion literal_sub_re replace_func (Some c) cs"
      have out: "re_sub no_assertion literal_sub_re replace_func prev s = replace_func ms @ ?rest"
        using Some unfolding a Cons by (simp add: re_sub.simps no_assertion_def)
      have "replace_func ms = (indent @ name @ '' = '') @ ''symbol.For(''
               @ ([CHR 0x22] @ ''govel.'' @ v @ [CHR 0x22] @ '')'')"
        by (simp add: ms)
      then have "re_sub no_assertion literal_sub_re replace_func prev s
          = (indent @ name @ '' = '') @ ''symbol.For(''
               @ ([CHR 0x22] @ ''govel.'' @ v @ [CHR 0x22] @ '')'' @ ?rest)"
        unfolding out by simp
      then show ?thesis by (simp only: contains_app)
    qed
  qed
qed

lemma rewrite_line_idem: "rewrite_line (rewrite_line l) = rewrite_line l"
proof (cases "\<not> contains ''symbol.For('' l \<and> re_search literal_re l")
  case True
  then have "rewrite_line l = re_sub no_assertion literal_sub_re replace_func None l"
    by (simp add: rewrite_line_def)
  moreover have "contains ''symbol.For('' (re_sub no_assertion literal_sub_re replace_func None l)"
    using True lit_sub_marks by blast
  ultimately show ?thesis by (simp add: rewrite_line_def)
next
  case False
  then have "rewrite_line l = l" by (auto simp: rewrite_line_def)
  then show ?thesis by simp
qed

lemma convert_string_idem:
  "convert_string_to_symbol (convert_string_to_symbol y) = convert_string_to_symbol y"
proof -
  have "convert_string_to_symbol (convert_string_to_symbol y)
      = join_lines (map rewrite_line (split_lines (convert_string_to_symbol y)))"
    by (simp add: convert_string_to_symbol_def)
  also have "\<dots> = join_lines (map rewrite_line (map rewrite_line (split_lines y)))"
    by (simp only: convert_string_lines)
  also have "\<dots> = join_lines (map rewrite_line (split_lines y))"
    by (simp add: rewrite_line_idem comp_def)
  finally show ?thesis by (simp add: convert_string_to_symbol_def)
qed

lemma convert_const_idem_after:
  "convert_const_to_var (convert_string_to_symbol (convert_const_to_var w))
     = convert_string_to_symbol (convert_const_to_var w)"
proof -
  have "count_openers None (convert_const_to_var w) = 0"
    using sub_const_no_opener [of None w] by (simp add: sub_const_def convert_const_to_var_def)
  from rw_no_new_openers [OF convert_string_rw this]
  have "count_openers None (convert_string_to_symbol (convert_const_to_var w)) = 0" .
  from sub_const_id [OF this] show ?thesis
    by (simp add: sub_const_def convert_const_to_var_def)
qed



section \<open>Evaluating the script on concrete texts\<close>

text \<open>The equations that unfold the model on a given text.\<close>

lemmas class_simps = is_space_def is_word_def is_upper_us_def not_quote_def

lemmas literal_eval = convert_string_to_symbol_def rewrite_line_def re_sub.simps re_match_def
  no_assertion_def literal_re_def literal_sub_re_def strip_def class_simps

lemmas eval_simps = transform_def has_symbol_import_def import_stmt_def symbol_path_def
  import_entry_def add_symbol_import_def scan_imports.simps insert_at_def strip_def
  is_space_def is_word_def is_upper_us_def not_quote_def find_close_def
  convert_const_to_var_def const_open_re_def re_sub.simps re_match_def word_boundary_def
  no_assertion_def convert_string_to_symbol_def rewrite_line_def literal_re_def
  literal_sub_re_def

lemma transform_sample_in: "transform sample_in = Inr sample_out"
  unfolding sample_in_def sample_out_def
  by (simp add: eval_simps)

lemma transform_sample_out: "transform sample_out = Inr sample_out"
  unfolding sample_in_def sample_out_def
  by (simp add: eval_simps)



section \<open>Occurrences of the import path\<close>


lemma contains_iff: "contains p s \<longleftrightarrow> (\<exists>a b. s = a @ p @ b)"
proof
  show "contains p s \<Longrightarrow> \<exists>a b. s = a @ p @ b"
  proof (induction s)
    case Nil
    then show ?case by simp
  next
    case (Cons c cs)
    show ?case
    proof (cases "prefix p (c # cs)")
      case True
      then obtain b where "c # cs = [] @ p @ b" by (auto simp: prefix_def)
      then show ?thesis by blast
    next
      case False
      with Cons.prems have "contains p cs" by simp
      from Cons.IH [OF this] obtain a b where "cs = a @ p @ b" by blast
      then have "c # cs = (c # a) @ p @ b" by simp
      then show ?thesis by blast
    qed
  qed
next
  assume "\<exists>a b. s = a @ p @ b"
  then show "contains p s" by (auto simp: contains_app)
qed

lemma count_pos_iff: "q \<noteq> [] \<Longrightarrow> 0 < count_occ q s \<longleftrightarrow> contains q s"
  by (induction s) auto

lemma count_zero_iff: "q \<noteq> [] \<Longrightarrow> count_occ q s = 0 \<longleftrightarrow> \<not> contains q s"
  using count_pos_iff [of q s] by auto

lemma count_split:
  "q \<noteq> [] \<Longrightarrow> x \<notin> set q \<Longrightarrow> count_occ q (a @ x # b) = count_occ q a + count_occ q b"
proof (induction a)
  case Nil
  then show ?case by (cases q) auto
next
  case (Cons c a)
  from prefix_breaker [OF Cons.prems(2), of "c # a" b]
  have "prefix q (c # a @ x # b) = prefix q (c # a)" by simp
  with Cons show ?case by simp
qed

lemma count_suffix_le: "count_occ q b \<le> count_occ q (a @ b)"
  by (induction a) auto

lemma prefix_set: "prefix q s \<Longrightarrow> set q \<subseteq> set s"
  by (auto simp: prefix_def)

lemma count_no_last: "q \<noteq> [] \<Longrightarrow> last q \<notin> set t \<Longrightarrow> count_occ q t = 0"
proof (induction t)
  case Nil
  then show ?case by simp
next
  case (Cons c t)
  have "\<not> prefix q (c # t)"
  proof
    assume "prefix q (c # t)"
    from prefix_set [OF this] have "last q \<in> set (c # t)"
      using last_in_set [OF Cons.prems(1)] by blast
    with Cons.prems(2) show False by simp
  qed
  with Cons show ?case by simp
qed

lemma prefix_tail_cut:
  assumes "q \<noteq> []" and "last q \<notin> set t"
  shows "prefix q (u @ t) = prefix q u"
proof
  assume "prefix q (u @ t)"
  then consider "prefix q u" | us where "q = u @ us" "prefix us t"
    unfolding prefix_append by blast
  then show "prefix q u"
  proof cases
    case 1
    then show ?thesis .
  next
    case 2
    show ?thesis
    proof (cases "us = []")
      case True
      with 2 show ?thesis by simp
    next
      case False
      then have "last q = last us" using 2(1) by simp
      moreover have "last us \<in> set t" using False prefix_set [OF 2(2)] by auto
      ultimately show ?thesis using assms(2) by simp
    qed
  qed
next
  assume "prefix q u"
  then show "prefix q (u @ t)" by (rule prefix_prefix)
qed

lemma count_tail_cut:
  "q \<noteq> [] \<Longrightarrow> last q \<notin> set t \<Longrightarrow> count_occ q (u @ t) = count_occ q u"
proof (induction u)
  case Nil
  then show ?case by (simp add: count_no_last)
next
  case (Cons c u)
  from prefix_tail_cut [OF Cons.prems, of "c # u"]
  have "prefix q (c # u @ t) = prefix q (c # u)" by simp
  with Cons show ?case by simp
qed

lemma count_weave:
  assumes q: "q \<noteq> []" "x \<notin> set q"
  shows "length us = Suc (length ms)
     \<Longrightarrow> \<forall>m \<in> set ms. \<exists>m0. m = m0 @ [x] \<and> last q \<notin> set m0
     \<Longrightarrow> count_occ q (weave us ms) = sum_list (map (count_occ q) us)"
proof (induction us ms rule: weave.induct)
  case (1 ms)
  then show ?case by simp
next
  case (2 u us)
  then show ?case by simp
next
  case (3 u us m ms)
  from "3.prems"(2) obtain m0 where m: "m = m0 @ [x]" and m0: "last q \<notin> set m0" by auto
  have ih: "count_occ q (weave us ms) = sum_list (map (count_occ q) us)"
    using "3.prems" by (intro "3.IH") auto
  have "count_occ q (weave (u # us) (m # ms)) = count_occ q ((u @ m0) @ x # weave us ms)"
    by (simp add: m)
  also have "\<dots> = count_occ q (u @ m0) + count_occ q (weave us ms)"
    by (rule count_split [OF q])
  also have "count_occ q (u @ m0) = count_occ q u"
    by (rule count_tail_cut [OF q(1) m0])
  finally show ?case using ih by simp
qed

lemma symbol_path_facts:
  "symbol_path \<noteq> []" "CHR ''('' \<notin> set symbol_path" "CHR 0x0A \<notin> set symbol_path"
  "last symbol_path = CHR 0x22" "hd symbol_path = CHR 0x22" "CHR ''.'' \<notin> set symbol_path"
  "CHR '')'' \<notin> set symbol_path" "\<forall>ch \<in> set symbol_path. \<not> is_upper_us ch"
  "\<forall>ch \<in> set symbol_path. \<not> is_space ch"
  by (simp_all add: symbol_path_def is_upper_us_def is_space_def)

lemma convert_const_count:
  "count_occ symbol_path (convert_const_to_var w) = count_occ symbol_path w"
proof -
  from sub_const_segments [of w None] obtain us ms where
    len: "length us = Suc (length ms)" and w: "w = weave us ms"
    and cw: "sub_const None w = weave us (map (\<lambda>m. ''var ('') ms)"
    and ms: "\<forall>m \<in> set ms. \<exists>ws. m = ''const'' @ ws @ ''('' \<and> list_all is_space ws"
    by blast
  have 1: "\<forall>m \<in> set ms. \<exists>m0. m = m0 @ [CHR ''(''] \<and> last symbol_path \<notin> set m0"
  proof
    fix m assume "m \<in> set ms"
    with ms obtain ws where m: "m = ''const'' @ ws @ ''(''" and ws: "list_all is_space ws" by blast
    have "last symbol_path \<notin> set (''const'' @ ws)"
      using ws by (auto simp: symbol_path_facts list_all_iff is_space_def)
    moreover have "m = (''const'' @ ws) @ [CHR ''('']" by (simp add: m)
    ultimately show "\<exists>m0. m = m0 @ [CHR ''(''] \<and> last symbol_path \<notin> set m0" by blast
  qed
  have 2: "\<forall>m \<in> set (map (\<lambda>m. ''var ('') ms). \<exists>m0. m = m0 @ [CHR ''(''] \<and> last symbol_path \<notin> set m0"
  proof
    fix m assume "m \<in> set (map (\<lambda>m. ''var ('') ms)"
    then have "m = ''var '' @ [CHR ''('']" by auto
    moreover have "last symbol_path \<notin> set ''var ''" by (simp add: symbol_path_facts)
    ultimately show "\<exists>m0. m = m0 @ [CHR ''(''] \<and> last symbol_path \<notin> set m0" by blast
  qed
  have "count_occ symbol_path (weave us (map (\<lambda>m. ''var ('') ms))
          = sum_list (map (count_occ symbol_path) us)"
    by (rule count_weave [OF symbol_path_facts(1,2) _ 2]) (simp add: len)
  moreover have "count_occ symbol_path (weave us ms) = sum_list (map (count_occ symbol_path) us)"
    by (rule count_weave [OF symbol_path_facts(1,2) len 1])
  ultimately show ?thesis
    using w cw by (simp add: sub_const_def convert_const_to_var_def)
qed


lemma rw_prefix_path:
  assumes "rw y z" and "prefix symbol_path (c # z)"
  shows "prefix symbol_path (c # y)"
proof -
  from assms(2) obtain t where cz: "c # z = symbol_path @ t" by (auto simp: prefix_def)
  obtain q' where q: "symbol_path = CHR 0x22 # q'" by (simp add: symbol_path_def)
  from cz have c: "c = CHR 0x22" and z: "z = q' @ t" unfolding q by simp_all
  have "\<forall>ch \<in> set q'. \<not> is_upper_us ch" using symbol_path_facts(8) unfolding q by simp
  from rw_prefix_inv [OF assms(1) [unfolded z] this] obtain t' where "y = q' @ t'" by blast
  then have "c # y = symbol_path @ t'" using c q by simp
  then show ?thesis by (simp add: prefix_def)
qed

lemma count_quote_end:
  assumes "list_all not_quote v"
  shows "count_occ symbol_path (v @ [CHR 0x22]) = 0"
proof -
  have "\<not> contains symbol_path (v @ [CHR 0x22])"
  proof
    assume "contains symbol_path (v @ [CHR 0x22])"
    then obtain a b where e: "v @ [CHR 0x22] = a @ symbol_path @ b"
      unfolding contains_iff by blast
    obtain q' where q: "symbol_path = CHR 0x22 # CHR ''g'' # q'" by (simp add: symbol_path_def)
    have "CHR 0x22 \<in> set (butlast (a @ symbol_path @ b))"
      unfolding q by (simp add: butlast_append)
    with e have "CHR 0x22 \<in> set v" by (metis butlast_snoc)
    with assms show False by (auto simp: list_all_iff not_quote_def)
  qed
  then show ?thesis by (simp add: count_zero_iff symbol_path_facts)
qed

lemma count_no_quote: "CHR 0x22 \<notin> set s \<Longrightarrow> count_occ symbol_path s = 0"
  using count_no_last [of symbol_path s] by (simp add: symbol_path_facts)

lemma rw_count_le: "rw y z \<Longrightarrow> count_occ symbol_path z \<le> count_occ symbol_path y"
proof (induction rule: rw.induct)
  case rw_nil
  show ?case by simp
next
  case (rw_copy y z c)
  from rw_prefix_path [OF rw_copy.hyps, of c]
  have "prefix symbol_path (c # z) \<longrightarrow> prefix symbol_path (c # y)" by blast
  with rw_copy.IH show ?case by auto
next
  case (rw_lit y z name ws1 ws2 v)
  let ?q = "CHR 0x22"
  let ?P = symbol_path
  note sp = symbol_path_facts(1)
  have nq: "?q \<notin> set (name @ '' = symbol.For'')"
    using rw_lit.hyps(3) by (auto simp: list_all_iff is_upper_us_def)
  have "count_occ ?P (name @ '' = symbol.For('' @ [?q] @ ''govel.'' @ v @ [?q] @ '')'' @ z)
      = count_occ ?P ((name @ '' = symbol.For'') @ CHR ''('' # ([?q] @ ''govel.'' @ v @ [?q] @ '')'' @ z))"
    by simp
  also have "\<dots> = count_occ ?P (name @ '' = symbol.For'')
                 + count_occ ?P (([?q] @ ''govel'') @ CHR ''.'' # (v @ [?q] @ '')'' @ z))"
    by (simp only: count_split [OF sp symbol_path_facts(2)]) simp
  also have "\<dots> = count_occ ?P (name @ '' = symbol.For'') + (count_occ ?P ([?q] @ ''govel'')
                 + count_occ ?P ((v @ [?q]) @ CHR '')'' # z))"
    by (simp only: count_split [OF sp symbol_path_facts(6)]) simp
  also have "\<dots> = count_occ ?P (name @ '' = symbol.For'') + (count_occ ?P ([?q] @ ''govel'')
                 + (count_occ ?P (v @ [?q]) + count_occ ?P z))"
    by (simp only: count_split [OF sp symbol_path_facts(7)])
  also have "\<dots> = count_occ ?P z"
    using count_no_quote [OF nq] count_quote_end [OF rw_lit.hyps(7)]
    by (simp add: symbol_path_def)
  finally have "count_occ ?P (name @ '' = symbol.For('' @ [?q] @ ''govel.'' @ v @ [?q] @ '')'' @ z)
      = count_occ ?P z" .
  moreover have "count_occ ?P y
      \<le> count_occ ?P ((name @ ws1 @ ''='' @ ws2 @ [?q] @ ''govel.'' @ v @ [?q]) @ y)"
    by (rule count_suffix_le)
  ultimately show ?case using rw_lit.IH by simp
qed

lemma convert_string_count_le:
  "count_occ symbol_path (convert_string_to_symbol y) \<le> count_occ symbol_path y"
  by (rule rw_count_le [OF convert_string_rw])

lemma count_join_lines:
  "count_occ symbol_path (join_lines ls) = sum_list (map (count_occ symbol_path) ls)"
proof (induction ls rule: join_lines.induct)
  case 1
  show ?case by simp
next
  case (2 l)
  show ?case by simp
next
  case (3 l x xs)
  then show ?case
    by (simp add: count_split [OF symbol_path_facts(1,3)])
qed



lemma opener_has_paren: "is_opener p s \<Longrightarrow> CHR ''('' \<in> set s"
  unfolding is_opener_iff by auto

lemma count_no_paren: "CHR ''('' \<notin> set t \<Longrightarrow> count_openers p t = 0"
proof (induction t arbitrary: p)
  case Nil
  show ?case by simp
next
  case (Cons c t)
  from opener_has_paren [of p "c # t"] Cons.prems have "\<not> is_opener p (c # t)" by blast
  with Cons show ?case by simp
qed

lemma is_opener_app: "is_opener p a \<Longrightarrow> is_opener p (a @ t)"
proof -
  assume "is_opener p a"
  then obtain ws z where p: "case p of None \<Rightarrow> True | Some c \<Rightarrow> \<not> is_word c"
    and a: "a = ''const'' @ ws @ ''('' @ z" and ws: "list_all is_space ws"
    unfolding is_opener_iff by blast
  from a have "a @ t = ''const'' @ ws @ ''('' @ (z @ t)" by simp
  with p ws show ?thesis unfolding is_opener_iff by blast
qed

lemma is_opener_app_tail:
  assumes "CHR ''('' \<notin> set t"
  shows "is_opener p (a @ t) = is_opener p a"
proof
  assume o: "is_opener p (a @ t)"
  then obtain ws r where p: "case p of None \<Rightarrow> True | Some c \<Rightarrow> \<not> is_word c"
    and e: "a @ t = (''const'' @ ws @ ''('') @ r" and ws: "list_all is_space ws"
    unfolding is_opener_iff by auto
  from e obtain u where "(a = (''const'' @ ws @ ''('') @ u \<and> u @ t = r)
      \<or> (a @ u = ''const'' @ ws @ ''('' \<and> t = u @ r)"
    unfolding append_eq_append_conv2 by blast
  then show "is_opener p a"
  proof
    assume "a = (''const'' @ ws @ ''('') @ u \<and> u @ t = r"
    then have "a = ''const'' @ ws @ ''('' @ u" by simp
    with p ws show ?thesis unfolding is_opener_iff by blast
  next
    assume c: "a @ u = ''const'' @ ws @ ''('' \<and> t = u @ r"
    show ?thesis
    proof (cases "u = []")
      case True
      with c have "a = ''const'' @ ws @ ''('' @ []" by simp
      with p ws show ?thesis unfolding is_opener_iff by blast
    next
      case False
      from c have "last (a @ u) = CHR ''(''" by simp
      with False have "last u = CHR ''(''" by simp
      with False have "CHR ''('' \<in> set u" using last_in_set [of u] by auto
      with c assms show ?thesis by auto
    qed
  qed
next
  assume "is_opener p a"
  then show "is_opener p (a @ t)" by (rule is_opener_app)
qed

lemma sub_const_app_tail:
  "CHR ''('' \<notin> set t \<Longrightarrow> sub_const p (a @ t) = sub_const p a @ t"
proof (induction "length a" arbitrary: a p rule: less_induct)
  case less
  show ?case
  proof (cases rule: sub_const_cases [where s = a and prev = p])
    case nil
    then show ?thesis
      by (simp add: sub_const_Nil sub_const_id count_no_paren [OF less.prems])
  next
    case (opener ws z)
    have len: "length z < length a" using opener(1) by simp
    have o2: "is_opener p (''const'' @ ws @ ''('' @ (z @ t))"
      using is_opener_app [OF opener(3), of t] unfolding opener(1) by simp
    from sub_const_open [OF o2 opener(2)] sub_const_open [OF opener(3) [unfolded opener(1)] opener(2)]
      less.hyps [OF len less.prems, of "Some (CHR ''('')"]
    show ?thesis unfolding opener(1) by simp
  next
    case (copy c cs)
    have len: "length cs < length a" using copy(1) by simp
    have "\<not> is_opener p ((c # cs) @ t)"
      using copy is_opener_app_tail [OF less.prems, of p "c # cs"] by simp
    then have "sub_const p (c # cs @ t) = c # sub_const (Some c) (cs @ t)"
      by (intro sub_const_copy) simp
    with sub_const_copy [of p c cs] copy less.hyps [OF len less.prems, of "Some c"]
    show ?thesis by simp
  qed
qed

lemma sub_const_breaker:
  "breaker x \<Longrightarrow> sub_const p (a @ x # b) = sub_const p a @ x # sub_const (Some x) b"
proof (induction "length a" arbitrary: a p rule: less_induct)
  case less
  show ?case
  proof (cases rule: sub_const_cases [where s = a and prev = p])
    case nil
    then show ?thesis
      by (simp add: sub_const_Nil sub_const_copy not_opener_head breaker_not_c [OF less.prems])
  next
    case (opener ws z)
    have len: "length z < length a" using opener(1) by simp
    have "is_opener p (a @ x # b)"
      using opener(3) opener_breaker [OF less.prems, of p a b] by simp
    then have o2: "is_opener p (''const'' @ ws @ ''('' @ (z @ x # b))"
      unfolding opener(1) by simp
    from sub_const_open [OF o2 opener(2)] sub_const_open [OF opener(3) [unfolded opener(1)] opener(2)]
      less.hyps [OF len less.prems, of "Some (CHR ''('')"]
    show ?thesis unfolding opener(1) by simp
  next
    case (copy c cs)
    have len: "length cs < length a" using copy(1) by simp
    have "\<not> is_opener p ((c # cs) @ x # b)"
      using copy opener_breaker [OF less.prems, of p "c # cs" b] by simp
    then have "sub_const p (c # cs @ x # b) = c # sub_const (Some c) (cs @ x # b)"
      by (intro sub_const_copy) simp
    with sub_const_copy [of p c cs] copy less.hyps [OF len less.prems, of "Some c"]
    show ?thesis by simp
  qed
qed

lemma split_lines_app:
  "split_lines (u @ CHR 0x0A # v) = split_lines u @ split_lines v"
proof (induction u)
  case Nil
  show ?case by simp
next
  case (Cons c u)
  obtain l ls where sp: "split_lines u = l # ls"
    using split_lines_nonempty [of u] by (cases "split_lines u") auto
  with Cons show ?case by simp
qed

lemma join_lines_app:
  "xs \<noteq> [] \<Longrightarrow> ys \<noteq> [] \<Longrightarrow> join_lines (xs @ ys) = join_lines xs @ CHR 0x0A # join_lines ys"
proof (induction xs rule: join_lines.induct)
  case 1
  then show ?case by simp
next
  case (2 l)
  then show ?case by (cases ys) auto
next
  case (3 l x xs)
  then show ?case by simp
qed

lemma convert_string_newline:
  "convert_string_to_symbol (u @ CHR 0x0A # v)
     = convert_string_to_symbol u @ CHR 0x0A # convert_string_to_symbol v"
  by (simp add: convert_string_to_symbol_def split_lines_app join_lines_app split_lines_nonempty)


lemma convert_const_marker:
  assumes t: "CHR ''('' \<notin> set t"
  shows "convert_const_to_var (a @ CHR 0x0A # (t @ symbol_path) @ CHR 0x0A # b)
           = sub_const None a @ CHR 0x0A # (t @ symbol_path) @ CHR 0x0A
               # sub_const (Some (CHR 0x0A)) b"
proof -
  let ?q = "CHR 0x22"
  let ?inner = "''govel/packages/support/src/symbol''"
  have sp: "symbol_path = ?q # ?inner @ [?q]" by (simp add: symbol_path_def)
  have bq: "breaker ?q" by (simp add: breaker_def is_space_def)
  have t': "CHR ''('' \<notin> set (CHR 0x0A # t)" using t by simp
  have 1: "sub_const None ((a @ CHR 0x0A # t) @ ?q # (?inner @ ?q # (CHR 0x0A # b)))
         = sub_const None (a @ CHR 0x0A # t) @ ?q
             # sub_const (Some ?q) (?inner @ ?q # (CHR 0x0A # b))"
    by (rule sub_const_breaker [OF bq])
  have 2: "sub_const None (a @ CHR 0x0A # t) = sub_const None a @ CHR 0x0A # t"
    by (rule sub_const_app_tail [OF t'])
  have 3: "sub_const (Some ?q) (?inner @ ?q # (CHR 0x0A # b))
         = sub_const (Some ?q) ?inner @ ?q # sub_const (Some ?q) (CHR 0x0A # b)"
    by (rule sub_const_breaker [OF bq])
  have 4: "sub_const (Some ?q) ?inner = ?inner"
    by (rule sub_const_id, rule count_no_paren) simp
  have 5: "sub_const (Some ?q) (CHR 0x0A # b) = CHR 0x0A # sub_const (Some (CHR 0x0A)) b"
    by (rule sub_const_copy) (simp add: not_opener_head)
  have "sub_const None (a @ CHR 0x0A # (t @ symbol_path) @ CHR 0x0A # b)
      = sub_const None ((a @ CHR 0x0A # t) @ ?q # (?inner @ ?q # (CHR 0x0A # b)))"
    unfolding sp by simp
  also have "\<dots> = (sub_const None a @ CHR 0x0A # t) @ ?q # (?inner @ ?q
                    # (CHR 0x0A # sub_const (Some (CHR 0x0A)) b))"
    unfolding 1 2 3 4 5 ..
  also have "\<dots> = sub_const None a @ CHR 0x0A # (t @ symbol_path) @ CHR 0x0A
               # sub_const (Some (CHR 0x0A)) b"
    unfolding sp by simp
  finally show ?thesis by (simp add: sub_const_def convert_const_to_var_def)
qed

lemma marker_line_kept:
  assumes t: "t = ''import '' \<or> t = [CHR 0x09]"
  shows "\<exists>u v. convert_string_to_symbol
                 (convert_const_to_var (a @ CHR 0x0A # (t @ symbol_path) @ CHR 0x0A # b))
               = u @ symbol_path @ v"
proof -
  let ?L = "t @ symbol_path"
  have np: "CHR ''('' \<notin> set t" using t by auto
  have nl: "CHR 0x0A \<notin> set ?L" using t by (auto simp: symbol_path_def)
  have rl: "rewrite_line ?L = ?L"
    using t by (auto simp: rewrite_line_def symbol_path_def re_match_def literal_re_def class_simps)
  have csL: "convert_string_to_symbol ?L = ?L"
    by (simp add: convert_string_to_symbol_def split_lines_no_newline [OF nl] rl)
  let ?A = "sub_const None a" and ?B = "sub_const (Some (CHR 0x0A)) b"
  have "convert_string_to_symbol (?A @ CHR 0x0A # (?L @ CHR 0x0A # ?B))
      = convert_string_to_symbol ?A @ CHR 0x0A
          # (convert_string_to_symbol ?L @ CHR 0x0A # convert_string_to_symbol ?B)"
    by (simp only: convert_string_newline)
  then have "convert_string_to_symbol
                 (convert_const_to_var (a @ CHR 0x0A # ?L @ CHR 0x0A # b))
       = (convert_string_to_symbol ?A @ CHR 0x0A # t) @ symbol_path
           @ (CHR 0x0A # convert_string_to_symbol ?B)"
    unfolding convert_const_marker [OF np] csL by simp
  then show ?thesis by blast
qed

lemma line_clean:
  assumes "\<not> contains symbol_path x" and "l \<in> set (split_lines x)"
  shows "count_occ symbol_path l = 0"
proof -
  have "count_occ symbol_path x = 0"
    using assms(1) by (simp add: count_zero_iff symbol_path_facts)
  then have "sum_list (map (count_occ symbol_path) (split_lines x)) = 0"
    using count_join_lines [of "split_lines x"] by (simp add: join_split_lines)
  with assms(2) show ?thesis by auto
qed

lemma strip_sublist: "\<exists>u v. s = u @ strip s @ v"
proof -
  let ?d = "dropWhile is_space s"
  have "rev (dropWhile is_space xs) @ rev (takeWhile is_space xs) = rev xs" for xs :: string
    by (simp flip: rev_append)
  from this [of "rev ?d"] have "?d = strip s @ rev (takeWhile is_space (rev ?d))"
    by (simp add: strip_def)
  moreover have "s = takeWhile is_space s @ ?d" by simp
  ultimately have "s = takeWhile is_space s @ strip s @ rev (takeWhile is_space (rev ?d))"
    by simp
  then show ?thesis by blast
qed

lemma promoted_entry_clean:
  assumes "count_occ symbol_path l = 0"
  shows "count_occ symbol_path (CHR 0x09 # drop 7 (strip l)) = 0"
proof -
  have "\<not> contains symbol_path (CHR 0x09 # drop 7 (strip l))"
  proof
    assume "contains symbol_path (CHR 0x09 # drop 7 (strip l))"
    then obtain a b where e: "CHR 0x09 # drop 7 (strip l) = a @ symbol_path @ b"
      unfolding contains_iff by blast
    have "a \<noteq> []"
    proof
      assume "a = []"
      with e show False by (simp add: symbol_path_def)
    qed
    then obtain a' where "a = CHR 0x09 # a'" using e by (cases a) auto
    with e have d: "drop 7 (strip l) = a' @ symbol_path @ b" by simp
    obtain u v where l: "l = u @ strip l @ v" using strip_sublist by blast
    have "strip l = take 7 (strip l) @ drop 7 (strip l)" by simp
    with d have "strip l = take 7 (strip l) @ a' @ symbol_path @ b" by simp
    with l have "l = (u @ take 7 (strip l) @ a') @ symbol_path @ (b @ v)"
      by (metis append.assoc)
    then have "contains symbol_path l" unfolding contains_iff by blast
    with assms show False by (simp add: count_zero_iff symbol_path_facts)
  qed
  then show ?thesis by (simp add: count_zero_iff symbol_path_facts)
qed

lemma count_join_zero:
  "(\<forall>l \<in> set ls. count_occ symbol_path l = 0) \<Longrightarrow> count_occ symbol_path (join_lines ls) = 0"
  by (simp add: count_join_lines)


lemma scan_shape:
  "(\<exists>h. scan_imports lines j has
        = \<lparr>has_imports = h, import_start = None, import_end = None, scan_lines = lines\<rparr>)
   \<or> (\<exists>i. i < length lines \<and> scan_imports lines j has
        = \<lparr>has_imports = True, import_start = Some i, import_end = find_close lines i,
           scan_lines = lines\<rparr>)
   \<or> (\<exists>i. i < length lines \<and> scan_imports lines j has
        = \<lparr>has_imports = True, import_start = Some i, import_end = Some (i + 2),
           scan_lines = insert_at (i + 2) '')''
              (insert_at (i + 1) (CHR 0x09 # drop 7 (strip (lines ! i))) (lines[i := ''import ('']))\<rparr>)"
proof (induction lines j has rule: scan_imports.induct)
  case (1 lines i has)
  show ?case
  proof (cases "length lines \<le> i")
    case True
    then show ?thesis by (subst scan_imports.simps) simp
  next
    case len: False
    let ?line = "strip (lines ! i)"
    show ?thesis
    proof (cases "?line = []")
      case True
      with len 1(1) have "scan_imports lines i has = scan_imports lines (i + 1) has"
        by (subst scan_imports.simps) simp
      with 1(1) [OF len refl True] show ?thesis by simp
    next
      case nb: False
      show ?thesis
      proof (cases "prefix ''import'' ?line")
        case False
        with len nb show ?thesis by (subst scan_imports.simps) (simp add: Let_def)
      next
        case imp: True
        show ?thesis
        proof (cases "prefix ''import ('' ?line")
          case True
          with len nb imp have "scan_imports lines i has
            = \<lparr>has_imports = True, import_start = Some i, import_end = find_close lines i,
               scan_lines = lines\<rparr>"
            by (subst scan_imports.simps) (simp add: Let_def)
          with len show ?thesis by auto
        next
          case ng: False
          show ?thesis
          proof (cases "prefix ''import '' ?line")
            case True
            with len nb imp ng have "scan_imports lines i has
              = \<lparr>has_imports = True, import_start = Some i, import_end = Some (i + 2),
                 scan_lines = insert_at (i + 2) '')''
                   (insert_at (i + 1) (CHR 0x09 # drop 7 ?line) (lines[i := ''import ('']))\<rparr>"
              by (subst scan_imports.simps) (simp add: Let_def)
            with len show ?thesis by auto
          next
            case False
            with len nb imp ng have "scan_imports lines i has = scan_imports lines (i + 1) True"
              by (subst scan_imports.simps) (simp add: Let_def)
            with 1(2) [OF len refl nb imp ng False] show ?thesis by simp
          qed
        qed
      qed
    qed
  qed
qed

lemma find_close_Some: "find_close lines i = Some en \<Longrightarrow> i < en \<and> en < length lines"
proof -
  assume "find_close lines i = Some en"
  then obtain k where k: "first_index (\<lambda>l. strip l = '')'') (drop (i + 1) lines) = Some k"
    and en: "en = i + 1 + k" by (auto simp: find_close_def)
  from first_index_Some [OF k] have "k < length (drop (i + 1) lines)" by blast
  with en show ?thesis by auto
qed

lemma marker_text:
  assumes A: "A \<noteq> []" "\<forall>l \<in> set A. count_occ symbol_path l = 0"
    and B: "B \<noteq> []" "\<forall>l \<in> set B. count_occ symbol_path l = 0"
  shows "\<exists>a b. join_lines (A @ [t @ symbol_path] @ B)
                  = a @ CHR 0x0A # (t @ symbol_path) @ CHR 0x0A # b
           \<and> count_occ symbol_path a = 0 \<and> count_occ symbol_path b = 0"
proof -
  have "join_lines (A @ ([t @ symbol_path] @ B))
      = join_lines A @ CHR 0x0A # join_lines ([t @ symbol_path] @ B)"
    using A(1) by (intro join_lines_app) simp_all
  also have "join_lines ([t @ symbol_path] @ B)
      = join_lines [t @ symbol_path] @ CHR 0x0A # join_lines B"
    using B(1) by (intro join_lines_app) simp_all
  finally have "join_lines (A @ [t @ symbol_path] @ B)
      = join_lines A @ CHR 0x0A # (t @ symbol_path) @ CHR 0x0A # join_lines B"
    by simp
  moreover have "count_occ symbol_path (join_lines A) = 0"
    by (rule count_join_zero [OF A(2)])
  moreover have "count_occ symbol_path (join_lines B) = 0"
    by (rule count_join_zero [OF B(2)])
  ultimately show ?thesis by blast
qed


lemma add_import_shape:
  assumes r: "add_symbol_import x = Inr w" and ne: "w \<noteq> x"
    and nc: "\<not> contains symbol_path x"
  shows "\<exists>a b t. w = a @ CHR 0x0A # (t @ symbol_path) @ CHR 0x0A # b
           \<and> (t = ''import '' \<or> t = [CHR 0x09])
           \<and> count_occ symbol_path a = 0 \<and> count_occ symbol_path b = 0"
proof -
  let ?ls = "split_lines x"
  let ?P = symbol_path
  from r obtain p where pk: "first_index (prefix ''package '') ?ls = Some p"
    by (cases "first_index (prefix ''package '') ?ls") (auto simp: add_symbol_import_def)
  from first_index_Some [OF pk] have plen: "p < length ?ls" by simp
  have clean: "\<forall>l \<in> set ?ls. count_occ ?P l = 0"
    using line_clean [OF nc] by blast
  have clean_take: "\<forall>l \<in> set (take n ?ls). count_occ ?P l = 0" for n
    using clean by (auto dest: in_set_takeD)
  have clean_drop: "\<forall>l \<in> set (drop n ?ls). count_occ ?P l = 0" for n
    using clean by (auto dest: in_set_dropD)
  let ?sc = "scan_imports ?ls (p + 1) False"
  have w: "w = (if \<not> has_imports ?sc then
               join_lines (insert_at (p + 3) [] (insert_at (p + 2) import_stmt
                             (insert_at (p + 1) [] (scan_lines ?sc))))
            else (case (import_start ?sc, import_end ?sc) of
                    (Some st, Some en) \<Rightarrow> join_lines (insert_at en import_entry (scan_lines ?sc))
                  | _ \<Rightarrow> join_lines (scan_lines ?sc)))"
    using r unfolding add_symbol_import_def Let_def pk option.case
    by (auto split: if_splits option.splits)
  from scan_shape [of ?ls "p + 1" False]
  consider (plain) h where "?sc = \<lparr>has_imports = h, import_start = None, import_end = None,
        scan_lines = ?ls\<rparr>"
    | (group) i where "i < length ?ls" "?sc = \<lparr>has_imports = True, import_start = Some i,
        import_end = find_close ?ls i, scan_lines = ?ls\<rparr>"
    | (single) i where "i < length ?ls" "?sc = \<lparr>has_imports = True, import_start = Some i,
        import_end = Some (i + 2),
        scan_lines = insert_at (i + 2) '')''
           (insert_at (i + 1) (CHR 0x09 # drop 7 (strip (?ls ! i))) (?ls[i := ''import ('']))\<rparr>"
    by blast
  then show ?thesis
  proof cases
    case (plain h)
    show ?thesis
    proof (cases h)
      case True
      with plain w have "w = join_lines ?ls" by simp
      with ne show ?thesis by (simp add: join_split_lines)
    next
      case False
      have "p + 1 \<le> length ?ls" using plen by simp
      from insert_at_three [OF this, of "[]" import_stmt "[]"]
      have ins: "insert_at (p + 3) [] (insert_at (p + 2) import_stmt (insert_at (p + 1) [] ?ls))
           = take (p + 1) ?ls @ [[], import_stmt, []] @ drop (p + 1) ?ls"
        by (simp add: numeral_3_eq_3 numeral_2_eq_2)
      have "w = join_lines (take (p + 1) ?ls @ [[], import_stmt, []] @ drop (p + 1) ?ls)"
        unfolding w plain using False by (simp only: scan.simps ins) simp
      then have w': "w = join_lines ((take (p + 1) ?ls @ [[]]) @ [''import '' @ ?P]
                                       @ ([] # drop (p + 1) ?ls))"
        by (simp add: import_stmt_def)
      have "\<exists>a b. join_lines ((take (p + 1) ?ls @ [[]]) @ [''import '' @ ?P]
                                       @ ([] # drop (p + 1) ?ls))
                  = a @ CHR 0x0A # (''import '' @ ?P) @ CHR 0x0A # b
           \<and> count_occ ?P a = 0 \<and> count_occ ?P b = 0"
        using clean_take [of "p + 1"] clean_drop [of "p + 1"]
        by (intro marker_text) auto
      with w' show ?thesis by blast
    qed
  next
    case (group i)
    show ?thesis
    proof (cases "find_close ?ls i")
      case None
      with group w have "w = join_lines ?ls" by simp
      with ne show ?thesis by (simp add: join_split_lines)
    next
      case (Some en)
      from find_close_Some [OF Some] have en: "0 < en" "en < length ?ls" by auto
      have w': "w = join_lines (take en ?ls @ [[CHR 0x09] @ ?P] @ drop en ?ls)"
        unfolding w group Some by (simp add: insert_at_def import_entry_def)
      have "\<exists>a b. join_lines (take en ?ls @ [[CHR 0x09] @ ?P] @ drop en ?ls)
                  = a @ CHR 0x0A # ([CHR 0x09] @ ?P) @ CHR 0x0A # b
           \<and> count_occ ?P a = 0 \<and> count_occ ?P b = 0"
        using clean_take [of en] clean_drop [of en] en
        by (intro marker_text) auto
      with w' show ?thesis by blast
    qed
  next
    case (single i)
    let ?e = "CHR 0x09 # drop 7 (strip (?ls ! i))"
    have "count_occ ?P (?ls ! i) = 0" using clean single(1) by simp
    then have ce: "count_occ ?P ?e = 0" by (rule promoted_entry_clean)
    have "w = join_lines (insert_at (i + 2) import_entry (insert_at (i + 2) '')''
           (insert_at (i + 1) ?e (?ls[i := ''import ('']))))"
      unfolding w single by simp
    then have "w = join_lines (take i ?ls @ [''import ('', ?e, import_entry, '')'']
                                 @ drop (i + 1) ?ls)"
      by (simp only: promote_lines [OF single(1)])
    then have w': "w = join_lines ((take i ?ls @ [''import ('', ?e]) @ [[CHR 0x09] @ ?P]
                                 @ ('')'' # drop (i + 1) ?ls))"
      by (simp add: import_entry_def)
    have c1: "count_occ ?P ''import ('' = 0" "count_occ ?P '')'' = 0"
      by (simp_all add: symbol_path_def)
    have "\<exists>a b. join_lines ((take i ?ls @ [''import ('', ?e]) @ [[CHR 0x09] @ ?P]
                                 @ ('')'' # drop (i + 1) ?ls))
                  = a @ CHR 0x0A # ([CHR 0x09] @ ?P) @ CHR 0x0A # b
           \<and> count_occ ?P a = 0 \<and> count_occ ?P b = 0"
      using clean_take [of i] clean_drop [of "i + 1"] ce c1
      by (intro marker_text) auto
    with w' show ?thesis by blast
  qed
qed

lemma has_symbol_import_iff: "has_symbol_import x \<longleftrightarrow> contains symbol_path x"
proof -
  have "contains symbol_path x" if "contains import_stmt x"
  proof -
    from that obtain a b where "x = a @ import_stmt @ b" unfolding contains_iff by blast
    then have "x = (a @ ''import '') @ symbol_path @ b" by (simp add: import_stmt_def)
    then show ?thesis unfolding contains_iff by blast
  qed
  then show ?thesis by (auto simp: has_symbol_import_def)
qed

lemma inserted_once:
  assumes nh: "\<not> has_symbol_import x" and r: "add_symbol_import x = Inr w" and ne: "w \<noteq> x"
  shows "count_occ symbol_path (convert_string_to_symbol (convert_const_to_var w)) = 1"
proof -
  let ?P = symbol_path
  from nh have nc: "\<not> contains ?P x" by (simp add: has_symbol_import_iff)
  from add_import_shape [OF r ne nc] obtain a b t where
    w: "w = a @ CHR 0x0A # (t @ ?P) @ CHR 0x0A # b"
    and t: "t = ''import '' \<or> t = [CHR 0x09]"
    and a: "count_occ ?P a = 0" and b: "count_occ ?P b = 0"
    by blast
  have ct: "count_occ ?P (t @ ?P) = 1"
    using t by (auto simp: symbol_path_def)
  have "count_occ ?P w = count_occ ?P a + (count_occ ?P (t @ ?P) + count_occ ?P b)"
    unfolding w by (simp only: count_split [OF symbol_path_facts(1,3)])
  with a b ct have cw: "count_occ ?P w = 1" by simp
  have "count_occ ?P (convert_string_to_symbol (convert_const_to_var w))
          \<le> count_occ ?P (convert_const_to_var w)"
    by (rule convert_string_count_le)
  with cw have le: "count_occ ?P (convert_string_to_symbol (convert_const_to_var w)) \<le> 1"
    by (simp add: convert_const_count)
  from marker_line_kept [OF t, of a b] obtain u v where
    "convert_string_to_symbol (convert_const_to_var w) = u @ ?P @ v"
    unfolding w by blast
  then have "contains ?P (convert_string_to_symbol (convert_const_to_var w))"
    unfolding contains_iff by blast
  then have "0 < count_occ ?P (convert_string_to_symbol (convert_const_to_var w))"
    by (simp add: count_pos_iff symbol_path_facts)
  with le show ?thesis by simp
qed



section \<open>What the import step returns\<close>















section \<open>The import manager: the three outcomes of the scan\<close>






text \<open>
  Claim C10, as stated, fails. Here the only import construct after the header is a grouped
  block that is never closed, but a comment stands between the header and it: the scan
  stops at the comment, and the import step puts the three lines of claim C7 right after
  the header, so the import is inserted.
\<close>

theorem unclosed_group_gets_import:
  "add_symbol_import ''package a\<newline>// c\<newline>import (\<newline>\"fmt\"''
     = Inr ''package a\<newline>\<newline>import \"govel/packages/support/src/symbol\"\<newline>\<newline>// c\<newline>import (\<newline>\"fmt\"''"
  by (simp add: eval_simps)

text \<open>
  Claim C10, amended. Let the first non-blank line after the package line, at index \<open>i\<close>,
  begin (once stripped) with \<^verbatim>\<open>import (\<close>, and let no later line strip to a closing
  parenthesis. Then \<^verbatim>\<open>add_symbol_import\<close> raises nothing and returns the text it was
  given: nothing is inserted.
\<close>

theorem add_import_unclosed_group:
  assumes pk: "first_index (prefix ''package '') (split_lines content) = Some p"
    and fa: "first_nonblank_after (split_lines content) p i"
    and grp: "prefix ''import ('' (strip (split_lines content ! i))"
    and unclosed: "\<forall>j. i < j \<and> j < length (split_lines content)
                      \<longrightarrow> strip (split_lines content ! j) \<noteq> '')''"
  shows "add_symbol_import content = Inr content"
proof -
  let ?ls = "split_lines content"
  let ?line = "strip (?ls ! i)"
  from fa have fn: "first_nonblank ?ls p = Some i" by (simp add: first_nonblank_after_iff)
  from first_nonblank_Some [OF fn] have len: "i < length ?ls" and nb: "?line \<noteq> []"
    and eq: "scan_imports ?ls (p + 1) False = scan_imports ?ls i False" by auto
  have sc: "scan_imports ?ls (p + 1) False =
      \<lparr>has_imports = True, import_start = Some i, import_end = None, scan_lines = ?ls\<rparr>"
    using len nb grp prefix_import_weaken2 [OF grp] find_close_None [OF unclosed]
    by (subst eq, subst scan_imports.simps) (simp add: Let_def)
  show ?thesis
    unfolding add_symbol_import_def Let_def pk option.case sc
    by (simp add: join_split_lines)
qed

theorem add_import_unclosed_group_witness:
  "add_symbol_import ''package a\<newline>import (\<newline>)x'' = Inr ''package a\<newline>import (\<newline>)x''"
proof -
  let ?c = "''package a\<newline>import (\<newline>)x''"
  have sl: "split_lines ?c = [''package a'', ''import ('', '')x'']" by simp
  have st: "strip ''import ('' = ''import (''" "strip '')x'' = '')x''"
    by (simp_all add: strip_def is_space_def)
  have pk: "first_index (prefix ''package '') (split_lines ?c) = Some 0"
    unfolding sl by simp
  have fa: "first_nonblank_after (split_lines ?c) 0 1"
    unfolding sl by (simp add: first_nonblank_after_def st)
  have grp: "prefix ''import ('' (strip (split_lines ?c ! 1))"
    unfolding sl by (simp add: st)
  have unclosed: "\<forall>j. 1 < j \<and> j < length (split_lines ?c)
                      \<longrightarrow> strip (split_lines ?c ! j) \<noteq> '')''"
    unfolding sl by (auto simp: less_Suc_eq numeral_3_eq_3 st)
  show ?thesis
    using add_import_unclosed_group [OF pk fa grp unclosed] .
qed



section \<open>The file updater: writing and reporting\<close>

text \<open>
  Claim C4. \<^verbatim>\<open>update_tokens_file\<close> writes a file only when the transformed text differs
  from the text read, and in that case it returns \<^verbatim>\<open>True\<close>, so the loop of \<^verbatim>\<open>main\<close>
  prints the file as updated. When the transformed text equals the text read, the world
  is left as it was (no write, not even of the same text) and the loop prints that no
  changes were needed. Conversely, whenever the call changes the files or records a
  write, the file was read, its transformed text differs from the original, and the
  call returns \<^verbatim>\<open>True\<close>.
\<close>

theorem write_only_on_change:
  "(files w file_path = Some original \<and> transform original = Inr original
      \<longrightarrow> update_tokens_file file_path w = (False, w)
        \<and> update_all [file_path] n w
            = (n, w\<lparr>console := console w @ [Processing file_path, NoChangesNeeded]\<rparr>))
   \<and> (files w file_path = Some original \<and> transform original = Inr content
        \<and> content \<noteq> original \<and> \<not> write_protected w file_path
      \<longrightarrow> update_tokens_file file_path w
            = (True, w\<lparr>files := (files w)(file_path \<mapsto> content),
                       written := written w @ [file_path]\<rparr>)
        \<and> update_all [file_path] n w
            = (n + 1, w\<lparr>files := (files w)(file_path \<mapsto> content),
                        written := written w @ [file_path],
                        console := console w @ [Processing file_path, Updated]\<rparr>))
   \<and> (written (snd (update_tokens_file file_path w)) \<noteq> written w
        \<or> files (snd (update_tokens_file file_path w)) \<noteq> files w
      \<longrightarrow> fst (update_tokens_file file_path w)
        \<and> (\<exists>original content. files w file_path = Some original
              \<and> transform original = Inr content \<and> content \<noteq> original))"
proof (intro conjI impI)
  assume a: "files w file_path = Some original \<and> transform original = Inr original"
  then show "update_tokens_file file_path w = (False, w)"
    by (simp add: update_tokens_file_def)
  from a show "update_all [file_path] n w
            = (n, w\<lparr>console := console w @ [Processing file_path, NoChangesNeeded]\<rparr>)"
    by (simp add: update_tokens_file_def print_def)
next
  assume a: "files w file_path = Some original \<and> transform original = Inr content
        \<and> content \<noteq> original \<and> \<not> write_protected w file_path"
  then show "update_tokens_file file_path w
            = (True, w\<lparr>files := (files w)(file_path \<mapsto> content),
                       written := written w @ [file_path]\<rparr>)"
    by (simp add: update_tokens_file_def)
  from a show "update_all [file_path] n w
            = (n + 1, w\<lparr>files := (files w)(file_path \<mapsto> content),
                        written := written w @ [file_path],
                        console := console w @ [Processing file_path, Updated]\<rparr>)"
    by (simp add: update_tokens_file_def print_def)
next
  assume a: "written (snd (update_tokens_file file_path w)) \<noteq> written w
        \<or> files (snd (update_tokens_file file_path w)) \<noteq> files w"
  then show "fst (update_tokens_file file_path w)"
    by (auto simp: update_tokens_file_def print_def split: option.splits sum.splits if_splits)
  from a show "\<exists>original content. files w file_path = Some original
              \<and> transform original = Inr content \<and> content \<noteq> original"
    by (auto simp: update_tokens_file_def print_def split: option.splits sum.splits if_splits)
qed

theorem write_only_on_change_witness:
  "update_all [''t.go''] 0 (one_file ''t.go'' sample_out)
     = (0, (one_file ''t.go'' sample_out)\<lparr>console := [Processing ''t.go'', NoChangesNeeded]\<rparr>)
   \<and> update_all [''t.go''] 0 (one_file ''t.go'' sample_in)
     = (1, \<lparr>files = [''t.go'' \<mapsto> sample_out], write_protected = (\<lambda>p. False),
            console = [Processing ''t.go'', Updated], written = [''t.go'']\<rparr>)
   \<and> fst (update_tokens_file ''t.go'' (one_file ''t.go'' sample_in))"
proof -
  have ne: "sample_out \<noteq> sample_in" by (simp add: sample_in_def sample_out_def)
  have 1: "files (one_file ''t.go'' sample_out) ''t.go'' = Some sample_out
             \<and> transform sample_out = Inr sample_out"
    by (simp add: one_file_def transform_sample_out)
  have 2: "files (one_file ''t.go'' sample_in) ''t.go'' = Some sample_in
             \<and> transform sample_in = Inr sample_out \<and> sample_out \<noteq> sample_in
             \<and> \<not> write_protected (one_file ''t.go'' sample_in) ''t.go''"
    by (simp add: one_file_def transform_sample_in ne)
  have 3: "written (snd (update_tokens_file ''t.go'' (one_file ''t.go'' sample_in)))
             \<noteq> written (one_file ''t.go'' sample_in)
           \<or> files (snd (update_tokens_file ''t.go'' (one_file ''t.go'' sample_in)))
             \<noteq> files (one_file ''t.go'' sample_in)"
    by (simp add: update_tokens_file_def one_file_def transform_sample_in ne)
  from write_only_on_change [of "one_file ''t.go'' sample_out" "''t.go''" sample_out 0]
    1 have a: "update_all [''t.go''] 0 (one_file ''t.go'' sample_out)
     = (0, (one_file ''t.go'' sample_out)\<lparr>console := [Processing ''t.go'', NoChangesNeeded]\<rparr>)"
    by (simp add: one_file_def)
  from write_only_on_change [of "one_file ''t.go'' sample_in" "''t.go''" sample_in 0 sample_out]
    2 3 have b: "update_all [''t.go''] 0 (one_file ''t.go'' sample_in)
     = (1, \<lparr>files = [''t.go'' \<mapsto> sample_out], write_protected = (\<lambda>p. False),
            console = [Processing ''t.go'', Updated], written = [''t.go'']\<rparr>)"
    and c: "fst (update_tokens_file ''t.go'' (one_file ''t.go'' sample_in))"
    by (simp_all add: one_file_def)
  from a b c show ?thesis by simp
qed

text \<open>
  Claim C5. \<^verbatim>\<open>add_symbol_import\<close> raises exactly when no line of the text starts
  with \<^verbatim>\<open>package \<close> (with the space the source tests for). When the import step runs
  on such a file, \<^verbatim>\<open>update_tokens_file\<close> catches the error: it prints the error together
  with the path, returns \<^verbatim>\<open>False\<close> and leaves files and write record untouched; the
  loop of \<^verbatim>\<open>main\<close> then goes on with the remaining files, the counter unchanged.
\<close>

theorem missing_package_skipped:
  "((\<exists>e. add_symbol_import content = Inl e)
      \<longleftrightarrow> (\<forall>l \<in> set (split_lines content). \<not> prefix ''package '' l))
   \<and> (files w file_path = Some content \<and> \<not> has_symbol_import content
        \<and> add_symbol_import content = Inl e
      \<longrightarrow> update_tokens_file file_path w
            = (False, w\<lparr>console := console w @ [ErrorProcessing file_path e]\<rparr>)
        \<and> update_all (file_path # rest) n w
            = update_all rest n
                (w\<lparr>console := console w @ [Processing file_path, ErrorProcessing file_path e,
                                           NoChangesNeeded]\<rparr>))"
proof (intro conjI impI)
  show "(\<exists>e. add_symbol_import content = Inl e)
      \<longleftrightarrow> (\<forall>l \<in> set (split_lines content). \<not> prefix ''package '' l)"
    by (rule add_import_fails_iff)
next
  assume a: "files w file_path = Some content \<and> \<not> has_symbol_import content
        \<and> add_symbol_import content = Inl e"
  then have tr: "transform content = Inl e" by (simp add: transform_def)
  with a show "update_tokens_file file_path w
            = (False, w\<lparr>console := console w @ [ErrorProcessing file_path e]\<rparr>)"
    by (simp add: update_tokens_file_def print_def)
  from a tr show "update_all (file_path # rest) n w
            = update_all rest n
                (w\<lparr>console := console w @ [Processing file_path, ErrorProcessing file_path e,
                                           NoChangesNeeded]\<rparr>)"
    by (simp add: update_tokens_file_def print_def)
qed

theorem missing_package_skipped_witness:
  "(\<exists>e. add_symbol_import ''var x = 1'' = Inl e)
   \<and> update_tokens_file ''a/tokens.go'' (one_file ''a/tokens.go'' ''var x = 1'')
       = (False, (one_file ''a/tokens.go'' ''var x = 1'')
            \<lparr>console := [ErrorProcessing ''a/tokens.go''
                           (ValueError ''No package declaration found'')]\<rparr>)"
proof -
  let ?c = "''var x = 1''"
  have np: "\<forall>l \<in> set (split_lines ?c).  \<not> prefix ''package '' l" by simp
  have f: "files (one_file ''a/tokens.go'' ?c) ''a/tokens.go'' = Some ?c"
    by (simp add: one_file_def)
  have h: "\<not> has_symbol_import ?c"
    by (simp add: has_symbol_import_def import_stmt_def symbol_path_def)
  have e: "add_symbol_import ?c = Inl (ValueError ''No package declaration found'')"
    by (simp add: add_symbol_import_def)
  from missing_package_skipped [of ?c "one_file ''a/tokens.go'' ?c" "''a/tokens.go''"
      "ValueError ''No package declaration found''" "[]" 0] np f h e
  show ?thesis by (simp add: one_file_def)
qed



section \<open>The literal rewriter: which lines change, and how\<close>

text \<open>
  Claim C9. Take a line without line break and without the text \<^verbatim>\<open>symbol.For(\<close> that
  consists of an indentation, a name of capitals and underscores, any whitespace, \<^verbatim>\<open>=\<close>,
  any whitespace, and a quoted literal \<^verbatim>\<open>govel.\<close> plus at least one character. The
  rewriter returns the indentation and the name as they were, then exactly one space,
  \<^verbatim>\<open>=\<close>, one space, and the factory call around the literal: the whitespace that stood
  around \<^verbatim>\<open>=\<close> is not kept.
\<close>

theorem rewrite_normalises_spacing:
  assumes indent: "list_all is_space indent"
    and name: "name \<noteq> []" "list_all is_upper_us name"
    and ws1: "list_all is_space ws1" and ws2: "list_all is_space ws2"
    and v: "v \<noteq> []" "list_all not_quote v"
    and line: "line = indent @ name @ ws1 @ ''='' @ ws2 @ [CHR 0x22] @ ''govel.'' @ v @ [CHR 0x22]"
    and guard: "\<not> contains ''symbol.For('' line"
    and nl: "CHR 0x0A \<notin> set line"
  shows "convert_string_to_symbol line
           = indent @ name @ '' = symbol.For('' @ [CHR 0x22] @ ''govel.'' @ v @ [CHR 0x22] @ '')''"
proof -
  have "rewrite_line line
      = indent @ name @ '' = symbol.For('' @ [CHR 0x22] @ ''govel.'' @ v @ [CHR 0x22] @ '')''"
    by (rule rewrite_line_whole [OF indent name ws1 ws2 v line guard])
  then show ?thesis
    by (simp add: convert_string_to_symbol_def split_lines_no_newline [OF nl])
qed

theorem rewrite_normalises_spacing_witness:
  "convert_string_to_symbol ''    A_TOKEN      = \"govel.a\"''
     = ''    A_TOKEN = symbol.For(\"govel.a\")''"
proof -
  have "convert_string_to_symbol ''    A_TOKEN      = \"govel.a\"''
     = ''    '' @ ''A_TOKEN'' @ '' = symbol.For('' @ [CHR 0x22] @ ''govel.'' @ ''a'' @ [CHR 0x22] @ '')''"
    by (rule rewrite_normalises_spacing
          [of "''    ''" "''A_TOKEN''" "''      ''" "'' ''" "''a''"])
       (simp_all add: class_simps)
  then show ?thesis by simp
qed

text \<open>
  Claim C2, as stated, fails: the line \<^verbatim>\<open>userID = "govel.user"\<close> has an identifier that
  is not all capitals, yet the rewriter changes it, because the pattern is searched
  anywhere in the line and \<^verbatim>\<open>ID\<close> directly before the \<^verbatim>\<open>=\<close> matches \<^verbatim>\<open>[A-Z_]+\<close>.
\<close>

theorem mixed_case_identifier_rewritten:
  "convert_string_to_symbol ''userID = \"govel.user\"'' = ''userID = symbol.For(\"govel.user\")''
   \<and> convert_string_to_symbol ''userID = \"govel.user\"'' \<noteq> ''userID = \"govel.user\"''"
  by (simp add: literal_eval)

text \<open>
  Claim C2, amended. The rewriter works line by line and keeps the number of lines. A line
  without \<^verbatim>\<open>symbol.For(\<close> that consists of indentation, a name of capitals and
  underscores, whitespace, \<^verbatim>\<open>=\<close>, whitespace and a quoted literal \<^verbatim>\<open>govel.\<close> plus at
  least one character becomes indentation, name, \<^verbatim>\<open> = \<close> and the factory call around the
  literal. A line that already contains \<^verbatim>\<open>symbol.For(\<close>, or that has no assignment in
  the sense of \<open>has_assignment\<close> anywhere in it, is returned as it is.
\<close>

theorem literal_rewrite_selective:
  "i < length (split_lines content) \<Longrightarrow>
     length (split_lines (convert_string_to_symbol content)) = length (split_lines content)
   \<and> (split_lines content ! i
          = indent @ name @ ws1 @ ''='' @ ws2 @ [CHR 0x22] @ ''govel.'' @ v @ [CHR 0x22]
        \<and> list_all is_space indent \<and> name \<noteq> [] \<and> list_all is_upper_us name
        \<and> list_all is_space ws1 \<and> list_all is_space ws2 \<and> v \<noteq> [] \<and> list_all not_quote v
        \<and> \<not> contains ''symbol.For('' (split_lines content ! i)
      \<longrightarrow> split_lines (convert_string_to_symbol content) ! i
            = indent @ name @ '' = symbol.For('' @ [CHR 0x22] @ ''govel.'' @ v @ [CHR 0x22] @ '')'')
   \<and> (contains ''symbol.For('' (split_lines content ! i)
        \<or> \<not> has_assignment (split_lines content ! i)
      \<longrightarrow> split_lines (convert_string_to_symbol content) ! i = split_lines content ! i)"
proof (intro conjI impI)
  assume i: "i < length (split_lines content)"
  show "length (split_lines (convert_string_to_symbol content)) = length (split_lines content)"
    by (simp add: convert_string_lines)
  {
    assume a: "split_lines content ! i
          = indent @ name @ ws1 @ ''='' @ ws2 @ [CHR 0x22] @ ''govel.'' @ v @ [CHR 0x22]
        \<and> list_all is_space indent \<and> name \<noteq> [] \<and> list_all is_upper_us name
        \<and> list_all is_space ws1 \<and> list_all is_space ws2 \<and> v \<noteq> [] \<and> list_all not_quote v
        \<and> \<not> contains ''symbol.For('' (split_lines content ! i)"
    then have "rewrite_line (split_lines content ! i)
         = indent @ name @ '' = symbol.For('' @ [CHR 0x22] @ ''govel.'' @ v @ [CHR 0x22] @ '')''"
      by (intro rewrite_line_whole) auto
    with i show "split_lines (convert_string_to_symbol content) ! i
            = indent @ name @ '' = symbol.For('' @ [CHR 0x22] @ ''govel.'' @ v @ [CHR 0x22] @ '')''"
      by (simp add: convert_string_lines)
  }
  {
    assume "contains ''symbol.For('' (split_lines content ! i)
        \<or> \<not> has_assignment (split_lines content ! i)"
    then have "rewrite_line (split_lines content ! i) = split_lines content ! i"
      by (auto simp: rewrite_line_def re_search_iff)
    with i show "split_lines (convert_string_to_symbol content) ! i = split_lines content ! i"
      by (simp add: convert_string_lines)
  }
qed

theorem literal_rewrite_selective_witness:
  "split_lines (convert_string_to_symbol sample_block) ! 1 = ''  A_B = symbol.For(\"govel.x\")''
   \<and> split_lines (convert_string_to_symbol sample_block) ! 2 = ''  userId = \"govel.y\"''
   \<and> split_lines (convert_string_to_symbol sample_block) ! 3 = ''  C = symbol.For(\"govel.c\")''"
proof -
  have sl: "split_lines sample_block = [''const ('', ''  A_B  = \"govel.x\"'',
       ''  userId = \"govel.y\"'', ''  C = symbol.For(\"govel.c\")'', '')'']"
    by (simp add: sample_block_def)
  have na: "\<not> has_assignment ''  userId = \"govel.y\"''"
    unfolding re_search_iff [symmetric] by (simp add: re_match_def literal_re_def class_simps)
  have 1: "split_lines (convert_string_to_symbol sample_block) ! 1
       = ''  '' @ ''A_B'' @ '' = symbol.For('' @ [CHR 0x22] @ ''govel.'' @ ''x'' @ [CHR 0x22] @ '')''"
    using literal_rewrite_selective [of 1 sample_block "''  ''" "''A_B''" "''  ''" "'' ''" "''x''"]
    unfolding sl by (simp add: class_simps)
  have 2: "split_lines (convert_string_to_symbol sample_block) ! 2 = ''  userId = \"govel.y\"''"
    using literal_rewrite_selective [of 2 sample_block] na unfolding sl by simp
  have 3: "split_lines (convert_string_to_symbol sample_block) ! 3 = ''  C = symbol.For(\"govel.c\")''"
    using literal_rewrite_selective [of 3 sample_block] unfolding sl by simp
  from 1 2 3 show ?thesis by simp
qed



section \<open>The declaration converter: every opener, and nothing else\<close>

text \<open>
  Claim C6. The pattern of the declaration converter matches exactly the openers: the
  keyword \<^verbatim>\<open>const\<close> after a non-word character (or at the start), any whitespace, and an
  opening parenthesis. Every text splits into kept pieces and openers, as many openers
  as there are positions where one starts; the converted text has the same kept pieces
  with \<^verbatim>\<open>var (\<close> in place of each opener, so each opener becomes exactly one
  \<^verbatim>\<open>var (\<close>, none is added or lost, and the text outside the openers is unchanged. No
  opener is left in the converted text.
\<close>

theorem const_to_var_openers:
  "(\<forall>prev s. is_opener prev s \<longleftrightarrow> word_boundary prev s \<and> re_match const_open_re s \<noteq> None)
   \<and> (\<exists>us ms. length us = Suc (length ms) \<and> content = weave us ms
      \<and> convert_const_to_var content = weave us (map (\<lambda>m. ''var ('') ms)
      \<and> (\<forall>m \<in> set ms. \<exists>ws. m = ''const'' @ ws @ ''('' \<and> list_all is_space ws)
      \<and> length ms = count_openers None content)
   \<and> count_openers None (convert_const_to_var content) = 0"
proof (intro conjI)
  show "\<forall>prev s. is_opener prev s \<longleftrightarrow> word_boundary prev s \<and> re_match const_open_re s \<noteq> None"
    using opens_iff by blast
  show "\<exists>us ms. length us = Suc (length ms) \<and> content = weave us ms
      \<and> convert_const_to_var content = weave us (map (\<lambda>m. ''var ('') ms)
      \<and> (\<forall>m \<in> set ms. \<exists>ws. m = ''const'' @ ws @ ''('' \<and> list_all is_space ws)
      \<and> length ms = count_openers None content"
    using sub_const_segments [of content None]
    by (simp add: sub_const_def convert_const_to_var_def)
  show "count_openers None (convert_const_to_var content) = 0"
    using sub_const_no_opener [of None content]
    by (simp add: sub_const_def convert_const_to_var_def)
qed

theorem const_to_var_openers_witness:
  "\<exists>us ms. ''a const   (b const(c xconst ('' = weave us ms
      \<and> ''a var (b var (c xconst ('' = weave us (map (\<lambda>m. ''var ('') ms)
      \<and> length ms = 2"
proof -
  let ?c = "''a const   (b const(c xconst (''"
  have cv: "convert_const_to_var ?c = ''a var (b var (c xconst (''"
    by (simp add: convert_const_to_var_def const_open_re_def re_sub.simps re_match_def
        word_boundary_def class_simps)
  have cn: "count_openers None ?c = 2"
    by (simp add: is_opener_def class_simps)
  from const_to_var_openers [of ?c] show ?thesis
    unfolding cv cn by blast
qed



section \<open>Running the script twice\<close>

text \<open>
  Claim C1, as stated, fails. In \<open>glued_in\<close> the closing quote of the literal, the text
  \<^verbatim>\<open>govel/packages/support/src/symbol\<close> and a quote form the marker that
  \<^verbatim>\<open>has_symbol_import\<close> looks for, so the first run adds no import; it rewrites the
  literal, which puts a parenthesis behind the quote and destroys the marker. The second
  run then finds no marker and inserts the import: its result differs from its input,
  and the file is written again.
\<close>

theorem transform_not_idempotent:
  "transform glued_in = Inr glued_once \<and> transform glued_once = Inr glued_twice
   \<and> glued_twice \<noteq> glued_once
   \<and> fst (update_tokens_file ''t.go'' (one_file ''t.go'' glued_once))"
proof -
  have 1: "transform glued_in = Inr glued_once"
    unfolding glued_in_def glued_once_def by (simp add: eval_simps)
  have 2: "transform glued_once = Inr glued_twice"
    unfolding glued_twice_def glued_once_def by (simp add: eval_simps)
  have 3: "glued_twice \<noteq> glued_once"
    unfolding glued_twice_def glued_once_def by simp
  from 2 3 have "fst (update_tokens_file ''t.go'' (one_file ''t.go'' glued_once))"
    by (simp add: update_tokens_file_def one_file_def)
  with 1 2 3 show ?thesis by simp
qed

text \<open>
  Claim C1, amended. Let the transform succeed on a text, and let either the import step
  have inserted the import (the text did not contain the marker of
  \<^verbatim>\<open>has_symbol_import\<close> and \<^verbatim>\<open>add_symbol_import\<close> changed it) or the transformed text contain
  the marker. Then the transform applied to the transformed text returns it unchanged,
  and \<^verbatim>\<open>update_tokens_file\<close> on a file that holds the transformed text writes nothing and
  returns \<^verbatim>\<open>False\<close>: the second run reports no update.
\<close>

theorem transform_idempotent:
  "transform x = Inr y \<Longrightarrow>
   has_symbol_import y
     \<or> (\<not> has_symbol_import x \<and> (\<exists>w. add_symbol_import x = Inr w \<and> w \<noteq> x)) \<Longrightarrow>
   transform y = Inr y
     \<and> (files w file_path = Some y \<longrightarrow> update_tokens_file file_path w = (False, w))"
proof -
  assume t: "transform x = Inr y"
    and c: "has_symbol_import y
      \<or> (\<not> has_symbol_import x \<and> (\<exists>w. add_symbol_import x = Inr w \<and> w \<noteq> x))"
  have h: "has_symbol_import y"
  proof (rule disjE [OF c])
    assume "has_symbol_import y"
    then show ?thesis .
  next
    assume "\<not> has_symbol_import x \<and> (\<exists>w. add_symbol_import x = Inr w \<and> w \<noteq> x)"
    then obtain w where nh: "\<not> has_symbol_import x" and r: "add_symbol_import x = Inr w"
      and ne: "w \<noteq> x" by blast
    from t nh r have y: "y = convert_string_to_symbol (convert_const_to_var w)"
      by (simp add: transform_def)
    from inserted_once [OF nh r ne] have "0 < count_occ symbol_path y"
      unfolding y by simp
    then show ?thesis
      by (simp add: has_symbol_import_iff count_pos_iff symbol_path_facts)
  qed
  from t obtain v where y: "y = convert_string_to_symbol (convert_const_to_var v)"
    by (auto simp: transform_def split: sum.splits)
  have "transform y = Inr (convert_string_to_symbol (convert_const_to_var y))"
    using h by (simp add: transform_def)
  also have "convert_const_to_var y = y"
    unfolding y by (rule convert_const_idem_after)
  also have "convert_string_to_symbol y = y"
    unfolding y by (rule convert_string_idem)
  finally have ty: "transform y = Inr y" .
  then show ?thesis by (simp add: update_tokens_file_def)
qed

theorem transform_idempotent_witness:
  "transform sample_out = Inr sample_out
   \<and> update_tokens_file ''t.go'' (one_file ''t.go'' sample_out)
       = (False, one_file ''t.go'' sample_out)"
proof -
  have nh: "\<not> has_symbol_import sample_in"
    by (simp add: sample_in_def has_symbol_import_def import_stmt_def symbol_path_def)
  have ad: "add_symbol_import sample_in = Inr sample_mid"
    by (simp add: sample_in_def sample_mid_def eval_simps)
  have ne: "sample_mid \<noteq> sample_in" by (simp add: sample_in_def sample_mid_def)
  have c: "has_symbol_import sample_out
      \<or> (\<not> has_symbol_import sample_in
           \<and> (\<exists>w. add_symbol_import sample_in = Inr w \<and> w \<noteq> sample_in))"
    using nh ad ne by blast
  have f: "files (one_file ''t.go'' sample_out) ''t.go'' = Some sample_out"
    by (simp add: one_file_def)
  from transform_idempotent [OF transform_sample_in c, of "one_file ''t.go'' sample_out" "''t.go''"] f
  show ?thesis by simp
qed



section \<open>How often the import path occurs after a run\<close>




end
